theory Spec2Isabelle
  imports Complex_Main "HOL-Library.Multiset"
begin

section \<open>pygbm tree grower: data model\<close>

text \<open>
  The development embeds \<^verbatim>\<open>pygbm/grower.py\<close>. Python floats are read as real
  numbers (no rounding, no NaN, no infinities); Python integers as \<open>int\<close>; list lengths
  and object identities as \<open>nat\<close>. Exceptions are values of type \<open>error\<close>, and every
  fallible function returns \<open>error + 'a\<close>.
\<close>

datatype error =
    NotImplementedError string
  | ValueError string
  | StopIteration string
  | IndexError
  | AttributeError

text \<open>
  Modelled from the spec: the \<^verbatim>\<open>SplitInfo\<close> class of \<^verbatim>\<open>pygbm/splitting.py\<close>,
  whose declaration is not part of the sources at hand. The fields are the ones the
  grower reads.
\<close>

record split_info =
  feature_idx :: nat
  bin_idx :: nat
  gain :: real
  gradient_left :: real
  hessian_left :: real
  gradient_right :: real
  hessian_right :: real

text \<open>
  \<^verbatim>\<open>TreeNode\<close>. Nodes are mutable objects that the grower reaches from several
  places (the queue, the list of leaves, the parent's child links), so they live in a
  store, a list of node records addressed by position; a reference to a node is its
  position. The class attributes \<^verbatim>\<open>split_info\<close>, \<^verbatim>\<open>left_child\<close>,
  \<^verbatim>\<open>right_child\<close>, \<^verbatim>\<open>weight\<close> default to \<^verbatim>\<open>None\<close>.
\<close>

record tree_node =
  depth :: int
  sample_indices :: "nat list"
  sum_gradients :: real
  sum_hessians :: real
  split_info :: "split_info option"
  left_child :: "nat option"
  right_child :: "nat option"
  weight :: "real option"

definition TreeNode :: "int \<Rightarrow> nat list \<Rightarrow> real \<Rightarrow> real \<Rightarrow> tree_node" where
  "TreeNode d idx g h =
     \<lparr>depth = d, sample_indices = idx, sum_gradients = g, sum_hessians = h,
      split_info = None, left_child = None, right_child = None, weight = None\<rparr>"

text \<open>\<^verbatim>\<open>TreeNode.__lt__\<close>: the comparison used by the priority queue.\<close>

definition TreeNode_lt :: "tree_node \<Rightarrow> tree_node \<Rightarrow> error + bool" where
  "TreeNode_lt self other_node =
     (case split_info self of
        None \<Rightarrow> Inl (ValueError ''Cannot compare nodes with split_info'')
      | Some a \<Rightarrow>
          (case split_info other_node of
             None \<Rightarrow> Inl (ValueError ''Cannot compare nodes with split_info'')
           | Some b \<Rightarrow> Inr (gain a > gain b)))"

subsection \<open>The binary heap of the Python standard library\<close>

text \<open>
  \<^verbatim>\<open>heapq.heappush\<close> and \<^verbatim>\<open>heapq.heappop\<close> with their helpers
  \<^verbatim>\<open>_siftdown\<close> and \<^verbatim>\<open>_siftup\<close>, over a comparison \<open>lt\<close> that may raise.
\<close>

function siftdown_loop ::
  "('a \<Rightarrow> 'a \<Rightarrow> error + bool) \<Rightarrow> 'a list \<Rightarrow> nat \<Rightarrow> nat \<Rightarrow> 'a \<Rightarrow> error + 'a list" where
  "siftdown_loop lt heap startpos pos newitem =
     (if pos > startpos then
        (let parentpos = (pos - 1) div 2;
             parent = heap ! parentpos
         in case lt newitem parent of
              Inl e \<Rightarrow> Inl e
            | Inr b \<Rightarrow>
                if b then siftdown_loop lt (heap[pos := parent]) startpos parentpos newitem
                else Inr (heap[pos := newitem]))
      else Inr (heap[pos := newitem]))"
  by pat_completeness auto
termination
  by (relation "measure (\<lambda>(lt, heap, startpos, pos, newitem). pos)") auto

declare siftdown_loop.simps [simp del]

definition siftdown ::
  "('a \<Rightarrow> 'a \<Rightarrow> error + bool) \<Rightarrow> 'a list \<Rightarrow> nat \<Rightarrow> nat \<Rightarrow> error + 'a list" where
  "siftdown lt heap startpos pos = siftdown_loop lt heap startpos pos (heap ! pos)"

function siftup_loop ::
  "('a \<Rightarrow> 'a \<Rightarrow> error + bool) \<Rightarrow> 'a list \<Rightarrow> nat \<Rightarrow> nat \<Rightarrow> nat \<Rightarrow> error + ('a list \<times> nat)" where
  "siftup_loop lt heap endpos pos childpos =
     (if childpos < endpos then
        (let rightpos = childpos + 1
         in case (if rightpos < endpos
                  then (case lt (heap ! childpos) (heap ! rightpos) of
                          Inl e \<Rightarrow> Inl e
                        | Inr b \<Rightarrow> Inr (if \<not> b then rightpos else childpos))
                  else Inr childpos) of
              Inl e \<Rightarrow> Inl e
            | Inr c \<Rightarrow> siftup_loop lt (heap[pos := heap ! c]) endpos c (2 * c + 1))
      else Inr (heap, pos))"
  by pat_completeness auto
termination
  by (relation "measure (\<lambda>(lt, heap, endpos, pos, childpos). endpos - childpos)")
     (auto split: if_splits sum.splits)

declare siftup_loop.simps [simp del]

definition siftup ::
  "('a \<Rightarrow> 'a \<Rightarrow> error + bool) \<Rightarrow> 'a list \<Rightarrow> nat \<Rightarrow> error + 'a list" where
  "siftup lt heap pos =
     (let endpos = length heap;
          startpos = pos;
          newitem = heap ! pos
      in case siftup_loop lt heap endpos pos (2 * pos + 1) of
           Inl e \<Rightarrow> Inl e
         | Inr (heap', pos') \<Rightarrow> siftdown lt (heap'[pos' := newitem]) startpos pos')"

definition heappush ::
  "('a \<Rightarrow> 'a \<Rightarrow> error + bool) \<Rightarrow> 'a list \<Rightarrow> 'a \<Rightarrow> error + 'a list" where
  "heappush lt heap item = siftdown lt (heap @ [item]) 0 (length (heap @ [item]) - 1)"

definition heappop ::
  "('a \<Rightarrow> 'a \<Rightarrow> error + bool) \<Rightarrow> 'a list \<Rightarrow> error + ('a \<times> 'a list)" where
  "heappop lt heap =
     (if heap = [] then Inl IndexError
      else
        (let lastelt = last heap;
             heap1 = butlast heap
         in if heap1 \<noteq> [] then
              (let returnitem = heap1 ! 0
               in case siftup lt (heap1[0 := lastelt]) 0 of
                    Inl e \<Rightarrow> Inl e
                  | Inr heap2 \<Rightarrow> Inr (returnitem, heap2))
            else Inr (lastelt, heap1)))"

subsection \<open>The grower\<close>

datatype dtype = uint8 | uint16 | uint32 | int32 | int64 | float32 | float64

text \<open>What the grower reads of the feature matrix: element type, shape, memory order.\<close>

record ndarray =
  dtype :: dtype
  shape :: "nat \<times> nat"
  f_contiguous :: bool

text \<open>
  Modelled from the spec: the \<^verbatim>\<open>HistogramSplitter\<close> class of
  \<^verbatim>\<open>pygbm/splitting.py\<close>, which is not part of the sources at hand. The grower
  reads three attributes of the splitter object and calls two of its methods; the
  methods are fields holding functions, so that every result below holds for every
  split evaluator. The grower uses the result of \<^verbatim>\<open>find_node_split\<close> as a
  \<^verbatim>\<open>SplitInfo\<close>.
\<close>

record histogram_splitter =
  all_gradients :: "real list"
  all_hessians :: "real list"
  l2_regularization :: real
  find_node_split :: "nat list \<Rightarrow> split_info"
  split_indices :: "nat list \<Rightarrow> split_info \<Rightarrow> nat list \<times> nat list"

text \<open>
  The state of a \<^verbatim>\<open>TreeGrower\<close>: its attributes, the node store \<open>nodes\<close>, and
  the trace \<open>evaluator_calls\<close> of the arguments of every call of
  \<^verbatim>\<open>find_node_split\<close> (the external effect of evaluating a split). The
  attribute \<^verbatim>\<open>root\<close> is the field \<open>root_node\<close>.
\<close>

record grower =
  splitter :: histogram_splitter
  max_leaf_nodes :: "int option"
  max_depth :: "int option"
  features_data :: ndarray
  min_gain_to_split :: real
  shrinkage :: real
  splittable_nodes :: "nat list"
  finalized_leaves :: "nat list"
  root_node :: nat
  n_nodes :: nat
  nodes :: "tree_node list"
  evaluator_calls :: "nat list list"

text \<open>Allocation of a fresh node object: it is appended to the store.\<close>

definition new_node :: "tree_node \<Rightarrow> grower \<Rightarrow> nat \<times> grower" where
  "new_node nd s = (length (nodes s), s\<lparr>nodes := nodes s @ [nd]\<rparr>)"

definition node_lt :: "tree_node list \<Rightarrow> nat \<Rightarrow> nat \<Rightarrow> error + bool" where
  "node_lt ns i j = TreeNode_lt (ns ! i) (ns ! j)"

definition finalize_leaf :: "grower \<Rightarrow> nat \<Rightarrow> grower" where
  "finalize_leaf s node =
     s\<lparr>nodes := (nodes s)[node := (nodes s ! node)\<lparr>weight :=
          Some (shrinkage s * sum_gradients (nodes s ! node) /
                (sum_hessians (nodes s ! node) + l2_regularization (splitter s)))\<rparr>],
       finalized_leaves := finalized_leaves s @ [node]\<rparr>"

definition compute_spittability :: "grower \<Rightarrow> nat \<Rightarrow> error + grower" where
  "compute_spittability s node =
     (let si = find_node_split (splitter s) (sample_indices (nodes s ! node));
          s1 = s\<lparr>evaluator_calls := evaluator_calls s @ [sample_indices (nodes s ! node)],
                 nodes := (nodes s)[node := (nodes s ! node)\<lparr>split_info := Some si\<rparr>]\<rparr>
      in if gain si < min_gain_to_split s1 then Inr (finalize_leaf s1 node)
         else (case heappush (node_lt (nodes s1)) (splittable_nodes s1) node of
                 Inl e \<Rightarrow> Inl e
               | Inr q \<Rightarrow> Inr (s1\<lparr>splittable_nodes := q\<rparr>)))"

function finalize_splittable_nodes :: "grower \<Rightarrow> grower" where
  "finalize_splittable_nodes s =
     (if length (splittable_nodes s) > 0 then
        (let node = last (splittable_nodes s);
             s1 = s\<lparr>splittable_nodes := butlast (splittable_nodes s)\<rparr>
         in finalize_splittable_nodes (finalize_leaf s1 node))
      else s)"
  by pat_completeness auto
termination
  by (relation "measure (\<lambda>s. length (splittable_nodes s))") (auto simp: finalize_leaf_def)

declare finalize_splittable_nodes.simps [simp del]

definition can_split_further :: "grower \<Rightarrow> bool" where
  "can_split_further s = (length (splittable_nodes s) \<ge> 1)"

definition split_next :: "grower \<Rightarrow> error + (grower \<times> nat \<times> nat)" where
  "split_next s =
     (if length (splittable_nodes s) = 0 then Inl (StopIteration ''No more splittable nodes'')
      else
        (case heappop (node_lt (nodes s)) (splittable_nodes s) of
           Inl e \<Rightarrow> Inl e
         | Inr (node, q) \<Rightarrow>
             (let s1 = s\<lparr>splittable_nodes := q\<rparr>
              in case split_info (nodes s1 ! node) of
                   None \<Rightarrow> Inl AttributeError
                 | Some si \<Rightarrow>
                     (let (sample_indices_left, sample_indices_right) =
                            split_indices (splitter s1) (sample_indices (nodes s1 ! node)) si;
                          depth' = depth (nodes s1 ! node) + 1;
                          n_leaf_nodes = int (length (finalized_leaves s1))
                                         + int (length (splittable_nodes s1));
                          n_leaf_nodes = n_leaf_nodes + 2;
                          (left_child_node, s2) =
                            new_node (TreeNode depth' sample_indices_left
                                        (gradient_left si) (hessian_left si)) s1;
                          s3 = s2\<lparr>nodes := (nodes s2)[node :=
                                  (nodes s2 ! node)\<lparr>left_child := Some left_child_node\<rparr>]\<rparr>;
                          (right_child_node, s4) =
                            new_node (TreeNode depth' sample_indices_right
                                        (gradient_right si) (hessian_right si)) s3;
                          s5 = s4\<lparr>nodes := (nodes s4)[node :=
                                  (nodes s4 ! node)\<lparr>right_child := Some right_child_node\<rparr>]\<rparr>;
                          s6 = s5\<lparr>n_nodes := n_nodes s5 + 2\<rparr>
                      in if max_depth s6 \<noteq> None \<and> Some depth' = max_depth s6 then
                           Inr (finalize_leaf (finalize_leaf s6 left_child_node) right_child_node,
                                left_child_node, right_child_node)
                         else if max_leaf_nodes s6 \<noteq> None
                                 \<and> Some n_leaf_nodes = max_leaf_nodes s6 then
                           Inr (finalize_splittable_nodes
                                  (finalize_leaf (finalize_leaf s6 left_child_node)
                                     right_child_node),
                                left_child_node, right_child_node)
                         else
                           (case compute_spittability s6 left_child_node of
                              Inl e \<Rightarrow> Inl e
                            | Inr s7 \<Rightarrow>
                                (case compute_spittability s7 right_child_node of
                                   Inl e \<Rightarrow> Inl e
                                 | Inr s8 \<Rightarrow>
                                     Inr (s8, left_child_node, right_child_node)))))))"

text \<open>
  \<^verbatim>\<open>grow\<close>: the loop may run forever (nothing bounds it when no budget is set
  and the evaluator keeps reporting gains), so not returning is the value \<open>None\<close>.
\<close>

partial_function (option) grow :: "grower \<Rightarrow> (error + grower) option" where
  "grow s =
     (if can_split_further s then
        (case split_next s of
           Inl e \<Rightarrow> Some (Inl e)
         | Inr r \<Rightarrow> grow (fst r))
      else Some (Inr s))"

definition intilialize_root :: "grower \<Rightarrow> error + grower" where
  "intilialize_root s =
     (let n_samples = fst (shape (features_data s));
          depth' = 0;
          (r, s1) = new_node (TreeNode depth' [0..<n_samples]
                               (sum_list (all_gradients (splitter s)))
                               (sum_list (all_hessians (splitter s)))) s;
          s2 = s1\<lparr>root_node := r\<rparr>
      in if max_leaf_nodes s2 \<noteq> None \<and> max_leaf_nodes s2 = Some 1
         then Inr (finalize_leaf s2 (root_node s2))
         else compute_spittability s2 (root_node s2))"

text \<open>Decimal rendering of integers, for the messages built by f-strings.\<close>

function show_nat :: "nat \<Rightarrow> string" where
  "show_nat n =
     (if n < 10 then [''0123456789'' ! n]
      else show_nat (n div 10) @ [''0123456789'' ! (n mod 10)])"
  by pat_completeness auto
termination
  by (relation "measure id") auto

declare show_nat.simps [simp del]

definition show_int :: "int \<Rightarrow> string" where
  "show_int i = (if i < 0 then ''-'' @ show_nat (nat (- i)) else show_nat (nat i))"

text \<open>
  \<^verbatim>\<open>TreeGrower.__init__\<close>. The constructor of the splitter is the parameter
  \<open>HistogramSplitter\<close>. The warning about a matrix that is not Fortran contiguous
  does not change the state and is left out. The attribute \<^verbatim>\<open>n_nodes\<close> is
  assigned after the root is initialised; until then the field holds 0, which nothing
  reads.
\<close>

definition TreeGrower_init ::
  "(nat \<Rightarrow> ndarray \<Rightarrow> nat \<Rightarrow> real list \<Rightarrow> real list \<Rightarrow> real \<Rightarrow> real \<Rightarrow> histogram_splitter)
   \<Rightarrow> ndarray \<Rightarrow> real list \<Rightarrow> real list \<Rightarrow> int option \<Rightarrow> int option \<Rightarrow> real \<Rightarrow> nat \<Rightarrow> real
   \<Rightarrow> real \<Rightarrow> real \<Rightarrow> error + grower" where
  "TreeGrower_init HistogramSplitter fd grads hess mln md min_gain n_bins l2 min_hess shr =
     (if dtype fd \<noteq> uint8 then
        Inl (NotImplementedError ''Explicit feature binning required for now'')
      else if mln \<noteq> None \<and> the mln < 1 then
        Inl (ValueError (''max_leaf_nodes='' @ show_int (the mln)
                         @ '' should not be smaller than 1''))
      else if md \<noteq> None \<and> the md < 1 then
        Inl (ValueError (''max_depth='' @ show_int (the md)
                         @ '' should not be smaller than 1''))
      else
        (case intilialize_root
                \<lparr>splitter = HistogramSplitter (snd (shape fd)) fd n_bins grads hess l2 min_hess,
                 max_leaf_nodes = mln, max_depth = md, features_data = fd,
                 min_gain_to_split = min_gain, shrinkage = shr,
                 splittable_nodes = [], finalized_leaves = [],
                 root_node = 0, n_nodes = 0, nodes = [], evaluator_calls = []\<rparr> of
           Inl e \<Rightarrow> Inl e
         | Inr s \<Rightarrow> Inr (s\<lparr>n_nodes := 1\<rparr>)))"

subsection \<open>The predictor array\<close>

text \<open>
  Modelled from the spec: the record type \<^verbatim>\<open>PREDICTOR_RECORD_DTYPE\<close> of
  \<^verbatim>\<open>pygbm/predictor.py\<close>, whose declaration is not part of the sources at hand.
  The fields are the keys that the grower writes; \<^verbatim>\<open>np.zeros\<close> fills every field
  with zero.
\<close>

record predictor_record =
  rec_feature_idx :: nat
  rec_bin_threshold :: nat
  rec_left :: nat
  rec_right :: nat
  rec_weight :: real
  rec_is_leaf :: bool

definition zero_record :: predictor_record where
  "zero_record =
     \<lparr>rec_feature_idx = 0, rec_bin_threshold = 0, rec_left = 0, rec_right = 0,
      rec_weight = 0, rec_is_leaf = False\<rparr>"

text \<open>
  \<^verbatim>\<open>_fill_predictor_node_array\<close>. The variable \<^verbatim>\<open>node\<close> of the source is a
  view of slot \<^verbatim>\<open>next_free_idx\<close> of the array, so each assignment to it is an
  update of that slot, also after the recursive call has written other slots. The
  recursion follows the child links of the store and is not bounded by anything the
  function checks, so it is a partial function.
\<close>

partial_function (option) fill_predictor_node_array ::
  "grower \<Rightarrow> predictor_record list \<Rightarrow> nat \<Rightarrow> nat
   \<Rightarrow> (error + (predictor_record list \<times> nat)) option" where
  "fill_predictor_node_array s predictor_nodes grower_node next_free_idx =
     (if next_free_idx \<ge> length predictor_nodes then Some (Inl IndexError)
      else
        (case weight (nodes s ! grower_node) of
           Some w \<Rightarrow>
             Some (Inr (predictor_nodes[next_free_idx :=
                          (predictor_nodes ! next_free_idx)
                            \<lparr>rec_weight := w, rec_is_leaf := True\<rparr>],
                        next_free_idx + 1))
         | None \<Rightarrow>
             (case split_info (nodes s ! grower_node) of
                None \<Rightarrow> Some (Inl AttributeError)
              | Some si \<Rightarrow>
                  (let arr1 = predictor_nodes[next_free_idx :=
                                (predictor_nodes ! next_free_idx)
                                  \<lparr>rec_feature_idx := feature_idx si,
                                   rec_bin_threshold := bin_idx si\<rparr>];
                       idx1 = next_free_idx + 1;
                       arr2 = arr1[next_free_idx :=
                                (arr1 ! next_free_idx)\<lparr>rec_left := idx1\<rparr>]
                   in case left_child (nodes s ! grower_node) of
                        None \<Rightarrow> Some (Inl AttributeError)
                      | Some l \<Rightarrow>
                          Option.bind (fill_predictor_node_array s arr2 l idx1)
                            (\<lambda>res. case res of
                               Inl e \<Rightarrow> Some (Inl e)
                             | Inr (arr3, idx2) \<Rightarrow>
                                 (let arr4 = arr3[next_free_idx :=
                                        (arr3 ! next_free_idx)\<lparr>rec_right := idx2\<rparr>]
                                  in case right_child (nodes s ! grower_node) of
                                       None \<Rightarrow> Some (Inl AttributeError)
                                     | Some r \<Rightarrow>
                                         fill_predictor_node_array s arr4 r idx2))))))"

text \<open>
  \<^verbatim>\<open>make_predictor\<close>; the result stands for the \<^verbatim>\<open>TreePredictor\<close> that wraps
  the filled array.
\<close>

definition make_predictor :: "grower \<Rightarrow> (error + predictor_record list) option" where
  "make_predictor s =
     (case fill_predictor_node_array s (replicate (n_nodes s) zero_record) (root_node s) 0 of
        None \<Rightarrow> None
      | Some (Inl e) \<Rightarrow> Some (Inl e)
      | Some (Inr (predictor_nodes, n)) \<Rightarrow> Some (Inr predictor_nodes))"

section \<open>Invariants\<close>

subsection \<open>The heap order\<close>

text \<open>
  The queue is an array heap: position \<open>i\<close> has its parent at \<open>(i - 1) div 2\<close>. The order
  is read through a key \<open>g\<close> (for the grower, the gain of a node): a parent's key is
  never below its children's. The two weaker forms describe the array while one of the
  sifting loops runs, with a hole at \<open>pos\<close>.
\<close>

definition heap_parent :: "nat \<Rightarrow> nat" where
  "heap_parent i = (i - 1) div 2"

definition is_heap :: "('a \<Rightarrow> real) \<Rightarrow> 'a list \<Rightarrow> bool" where
  "is_heap g h = (\<forall>i\<in>{1..<length h}. g (h ! i) \<le> g (h ! heap_parent i))"

definition heap_except :: "('a \<Rightarrow> real) \<Rightarrow> 'a list \<Rightarrow> nat \<Rightarrow> bool" where
  "heap_except g b pos =
     ((\<forall>i\<in>{1..<length b}. i \<noteq> pos \<longrightarrow> g (b ! i) \<le> g (b ! heap_parent i)) \<and>
      (\<forall>c\<in>{1..<length b}. heap_parent c = pos \<and> 0 < pos \<longrightarrow>
           g (b ! c) \<le> g (b ! heap_parent pos)))"

definition lt_by :: "('a \<Rightarrow> 'a \<Rightarrow> error + bool) \<Rightarrow> ('a \<Rightarrow> real) \<Rightarrow> 'a set \<Rightarrow> bool" where
  "lt_by lt g S = (\<forall>x\<in>S. \<forall>y\<in>S. lt x y = Inr (g x > g y))"

definition heap_below :: "('a \<Rightarrow> real) \<Rightarrow> 'a list \<Rightarrow> nat \<Rightarrow> bool" where
  "heap_below g a pos =
     ((\<forall>i\<in>{1..<length a}. heap_parent i \<noteq> pos \<longrightarrow> g (a ! i) \<le> g (a ! heap_parent i)) \<and>
      (\<forall>c\<in>{1..<length a}. heap_parent c = pos \<and> 0 < pos \<longrightarrow>
           g (a ! c) \<le> g (a ! heap_parent pos)))"

subsection \<open>Well-formed grower states\<close>

text \<open>The key of the queue: the gain recorded in a node's \<^verbatim>\<open>split_info\<close>.\<close>

definition gain_of :: "tree_node list \<Rightarrow> nat \<Rightarrow> real" where
  "gain_of ns i = (case split_info (ns ! i) of Some si \<Rightarrow> gain si | None \<Rightarrow> 0)"

definition leaf_value :: "grower \<Rightarrow> tree_node \<Rightarrow> real" where
  "leaf_value s nd =
     shrinkage s * sum_gradients nd / (sum_hessians nd + l2_regularization (splitter s))"

text \<open>
  Every node of the store is in one of four states, told apart by the list that holds
  its reference: queued (evaluated, gain not below the threshold, no weight, no
  children), finalized leaf (weight set by the leaf formula, no children), pending (just
  created or just taken from the queue: no weight, no children, in neither list), or
  internal (evaluated, both children set, no weight). The list \<open>P\<close> names the pending
  nodes; between two calls of \<^verbatim>\<open>split_next\<close> it is empty.
\<close>

definition node_ok :: "nat list \<Rightarrow> grower \<Rightarrow> nat \<Rightarrow> bool" where
  "node_ok P s i =
     (let nd = nodes s ! i in
      if i \<in> set (splittable_nodes s) then
        (\<exists>si. split_info nd = Some si \<and> \<not> gain si < min_gain_to_split s) \<and>
        weight nd = None \<and> left_child nd = None \<and> right_child nd = None
      else if i \<in> set (finalized_leaves s) then
        weight nd = Some (leaf_value s nd) \<and> left_child nd = None \<and> right_child nd = None
      else if i \<in> set P then
        weight nd = None \<and> left_child nd = None \<and> right_child nd = None
      else
        split_info nd \<noteq> None \<and> weight nd = None \<and>
        left_child nd \<noteq> None \<and> right_child nd \<noteq> None)"

definition store_ok :: "nat list \<Rightarrow> grower \<Rightarrow> bool" where
  "store_ok P s =
     (distinct (splittable_nodes s @ finalized_leaves s @ P) \<and>
      (\<forall>i\<in>set (splittable_nodes s @ finalized_leaves s @ P). i < length (nodes s)) \<and>
      (\<forall>i\<in>{0..<length (nodes s)}. node_ok P s i))"

definition count_ok :: "nat list \<Rightarrow> grower \<Rightarrow> bool" where
  "count_ok P s =
     (length (nodes s) = n_nodes s \<and>
      n_nodes s + 1 =
        2 * (length (splittable_nodes s) + length (finalized_leaves s) + length P))"

definition heap_ok :: "grower \<Rightarrow> bool" where
  "heap_ok s = is_heap (gain_of (nodes s)) (splittable_nodes s)"

definition depth_ok :: "grower \<Rightarrow> bool" where
  "depth_ok s =
     (case max_depth s of
        None \<Rightarrow> True
      | Some d \<Rightarrow>
          (\<forall>i\<in>{0..<length (nodes s)}.
             depth (nodes s ! i) \<le> d \<and>
             (depth (nodes s ! i) = d \<longrightarrow> split_info (nodes s ! i) = None)))"

text \<open>
  The shape of the node graph: a binary tree of node references that the child links of
  the store spell out, in which every node of the store occurs exactly once.
\<close>

datatype ptree = PLeaf nat | PNode nat ptree ptree

fun root_of :: "ptree \<Rightarrow> nat" where
  "root_of (PLeaf i) = i"
| "root_of (PNode i l r) = i"

fun ids :: "ptree \<Rightarrow> nat list" where
  "ids (PLeaf i) = [i]"
| "ids (PNode i l r) = i # ids l @ ids r"

fun tree_shape :: "tree_node list \<Rightarrow> ptree \<Rightarrow> bool" where
  "tree_shape ns (PLeaf i) =
     (i < length ns \<and> left_child (ns ! i) = None \<and> right_child (ns ! i) = None)"
| "tree_shape ns (PNode i l r) =
     (i < length ns \<and> left_child (ns ! i) = Some (root_of l) \<and>
      right_child (ns ! i) = Some (root_of r) \<and> tree_shape ns l \<and> tree_shape ns r)"

fun graft :: "nat \<Rightarrow> nat \<Rightarrow> nat \<Rightarrow> ptree \<Rightarrow> ptree" where
  "graft n l r (PLeaf i) = (if i = n then PNode i (PLeaf l) (PLeaf r) else PLeaf i)"
| "graft n l r (PNode i a b) = PNode i (graft n l r a) (graft n l r b)"

definition tree_of :: "grower \<Rightarrow> ptree \<Rightarrow> bool" where
  "tree_of s t =
     (tree_shape (nodes s) t \<and> root_of t = root_node s \<and> distinct (ids t) \<and>
      set (ids t) = {0..<length (nodes s)})"

definition tree_ok :: "grower \<Rightarrow> bool" where
  "tree_ok s = (\<exists>t. tree_of s t)"

text \<open>The configuration of a grower, which no operation changes.\<close>

definition same_config :: "grower \<Rightarrow> grower \<Rightarrow> bool" where
  "same_config s s' =
     (splitter s' = splitter s \<and> max_leaf_nodes s' = max_leaf_nodes s \<and>
      max_depth s' = max_depth s \<and> features_data s' = features_data s \<and>
      min_gain_to_split s' = min_gain_to_split s \<and> shrinkage s' = shrinkage s \<and>
      root_node s' = root_node s)"

definition grower_inv :: "nat list \<Rightarrow> grower \<Rightarrow> bool" where
  "grower_inv P s = (store_ok P s \<and> count_ok P s \<and> heap_ok s \<and> depth_ok s \<and> tree_ok s)"

text \<open>
  The state after the node \<open>node\<close> has been taken from the queue, leaving \<open>q\<close>, and its
  two children have been created and linked: the state \<^verbatim>\<open>split_next\<close> is in when it
  chooses among its three branches.
\<close>

definition with_children :: "grower \<Rightarrow> nat \<Rightarrow> nat list \<Rightarrow> split_info \<Rightarrow> grower" where
  "with_children s node q si =
     s\<lparr>splittable_nodes := q,
       nodes := (nodes s)[node := (nodes s ! node)\<lparr>left_child := Some (length (nodes s)),
                                     right_child := Some (length (nodes s) + 1)\<rparr>] @
          [TreeNode (depth (nodes s ! node) + 1)
             (fst (split_indices (splitter s) (sample_indices (nodes s ! node)) si))
             (gradient_left si) (hessian_left si),
           TreeNode (depth (nodes s ! node) + 1)
             (snd (split_indices (splitter s) (sample_indices (nodes s ! node)) si))
             (gradient_right si) (hessian_right si)],
       n_nodes := n_nodes s + 2\<rparr>"

text \<open>A caller that invokes \<^verbatim>\<open>split_next\<close> a given number of times.\<close>

fun split_steps :: "nat \<Rightarrow> grower \<Rightarrow> error + grower" where
  "split_steps 0 s = Inr s"
| "split_steps (Suc n) s =
     (case split_next s of Inl e \<Rightarrow> Inl e | Inr r \<Rightarrow> split_steps n (fst r))"

text \<open>
  The state of the constructor once the root has been created and registered, with the
  node counter already at its final value 1 (the constructor assigns it last, and
  nothing in between reads it).
\<close>

definition root_state ::
  "(nat \<Rightarrow> ndarray \<Rightarrow> nat \<Rightarrow> real list \<Rightarrow> real list \<Rightarrow> real \<Rightarrow> real \<Rightarrow> histogram_splitter)
   \<Rightarrow> ndarray \<Rightarrow> real list \<Rightarrow> real list \<Rightarrow> int option \<Rightarrow> int option \<Rightarrow> real \<Rightarrow> nat \<Rightarrow> real
   \<Rightarrow> real \<Rightarrow> real \<Rightarrow> grower" where
  "root_state HistogramSplitter fd grads hess mln md min_gain n_bins l2 min_hess shr =
     \<lparr>splitter = HistogramSplitter (snd (shape fd)) fd n_bins grads hess l2 min_hess,
      max_leaf_nodes = mln, max_depth = md, features_data = fd,
      min_gain_to_split = min_gain, shrinkage = shr,
      splittable_nodes = [], finalized_leaves = [],
      root_node = 0, n_nodes = 1,
      nodes = [TreeNode 0 [0..<fst (shape fd)]
                 (sum_list (all_gradients
                    (HistogramSplitter (snd (shape fd)) fd n_bins grads hess l2 min_hess)))
                 (sum_list (all_hessians
                    (HistogramSplitter (snd (shape fd)) fd n_bins grads hess l2 min_hess)))],
      evaluator_calls = []\<rparr>"

text \<open>The three checks of the constructor all pass.\<close>

definition valid_config :: "ndarray \<Rightarrow> int option \<Rightarrow> int option \<Rightarrow> bool" where
  "valid_config fd mln md =
     (dtype fd = uint8 \<and> (case mln of None \<Rightarrow> True | Some k \<Rightarrow> 1 \<le> k) \<and>
      (case md of None \<Rightarrow> True | Some d \<Rightarrow> 1 \<le> d))"

subsection \<open>A concrete run\<close>

text \<open>
  A split evaluator for examples: the gain of a sample set is its size, and a split cuts
  the set in two halves. With four samples the root has gain 4, its children gain 2, and
  their children gain 1.
\<close>

definition ex_splitter ::
  "nat \<Rightarrow> ndarray \<Rightarrow> nat \<Rightarrow> real list \<Rightarrow> real list \<Rightarrow> real \<Rightarrow> real \<Rightarrow> histogram_splitter" where
  "ex_splitter n_features fd n_bins grads hess l2 min_hess =
     \<lparr>all_gradients = grads, all_hessians = hess, l2_regularization = l2,
      find_node_split = (\<lambda>idx.
         \<lparr>feature_idx = 0, bin_idx = length idx div 2, gain = real (length idx),
          gradient_left = real (length idx div 2), hessian_left = real (length idx div 2),
          gradient_right = real (length idx - length idx div 2),
          hessian_right = real (length idx - length idx div 2)\<rparr>),
      split_indices = (\<lambda>idx si. (take (length idx div 2) idx, drop (length idx div 2) idx))\<rparr>"

definition ex_features :: ndarray where
  "ex_features = \<lparr>dtype = uint8, shape = (4, 1), f_contiguous = True\<rparr>"

text \<open>
  Four samples with gradient 1 and hessian 1 each, no regularisation, shrinkage 1, and
  the gain threshold 2; the leaf budget and the depth limit vary.
\<close>

definition ex_init :: "int option \<Rightarrow> int option \<Rightarrow> error + grower" where
  "ex_init mln md =
     TreeGrower_init ex_splitter ex_features [1, 1, 1, 1] [1, 1, 1, 1] mln md 2 256 0 (1 / 1000) 1"

definition ex_node ::
  "int \<Rightarrow> nat list \<Rightarrow> real \<Rightarrow> bool \<Rightarrow> nat option \<Rightarrow> nat option \<Rightarrow> real option \<Rightarrow> tree_node" where
  "ex_node d idx g evaluated l r w =
     \<lparr>depth = d, sample_indices = idx, sum_gradients = g, sum_hessians = g,
      split_info =
        (if evaluated
         then Some \<lparr>feature_idx = 0, bin_idx = length idx div 2, gain = real (length idx),
                    gradient_left = real (length idx div 2),
                    hessian_left = real (length idx div 2),
                    gradient_right = real (length idx - length idx div 2),
                    hessian_right = real (length idx - length idx div 2)\<rparr>
         else None),
      left_child = l, right_child = r, weight = w\<rparr>"

definition ex_state ::
  "int option \<Rightarrow> int option \<Rightarrow> nat list \<Rightarrow> nat list \<Rightarrow> tree_node list \<Rightarrow> nat list list
   \<Rightarrow> grower" where
  "ex_state mln md q f ns calls =
     \<lparr>splitter = ex_splitter 1 ex_features 256 [1, 1, 1, 1] [1, 1, 1, 1] 0 (1 / 1000),
      max_leaf_nodes = mln, max_depth = md, features_data = ex_features,
      min_gain_to_split = 2, shrinkage = 1,
      splittable_nodes = q, finalized_leaves = f,
      root_node = 0, n_nodes = length ns, nodes = ns, evaluator_calls = calls\<rparr>"

text \<open>The state after construction: the root is evaluated (gain 4) and queued.\<close>

definition ex_start :: "int option \<Rightarrow> int option \<Rightarrow> grower" where
  "ex_start mln md =
     ex_state mln md [0] []
       [ex_node 0 [0, 1, 2, 3] 4 True None None None]
       [[0, 1, 2, 3]]"

text \<open>After the first split, when neither limit applies: both children are queued.\<close>

definition ex_mid :: "int option \<Rightarrow> int option \<Rightarrow> grower" where
  "ex_mid mln md =
     ex_state mln md [1, 2] []
       [ex_node 0 [0, 1, 2, 3] 4 True (Some 1) (Some 2) None,
        ex_node 1 [0, 1] 2 True None None None,
        ex_node 1 [2, 3] 2 True None None None]
       [[0, 1, 2, 3], [0, 1], [2, 3]]"

text \<open>
  After the second split with a budget of three leaves: the children of node 1 are
  finalized and the queue, which held node 2, is drained.
\<close>

definition ex_end :: grower where
  "ex_end =
     ex_state (Some 3) None [] [3, 4, 2]
       [ex_node 0 [0, 1, 2, 3] 4 True (Some 1) (Some 2) None,
        ex_node 1 [0, 1] 2 True (Some 3) (Some 4) None,
        ex_node 1 [2, 3] 2 True None None (Some 1),
        ex_node 2 [0] 1 False None None (Some 1),
        ex_node 2 [1] 1 False None None (Some 1)]
       [[0, 1, 2, 3], [0, 1], [2, 3]]"

text \<open>After the first split with a depth limit of one: both children are finalized.\<close>

definition ex_shallow :: grower where
  "ex_shallow =
     ex_state None (Some 1) [] [1, 2]
       [ex_node 0 [0, 1, 2, 3] 4 True (Some 1) (Some 2) None,
        ex_node 1 [0, 1] 2 False None None (Some 1),
        ex_node 1 [2, 3] 2 False None None (Some 1)]
       [[0, 1, 2, 3]]"

section \<open>Properties\<close>

subsection \<open>The heap operations keep the heap order\<close>

lemma heap_parent_less: "0 < i \<Longrightarrow> heap_parent i < i"
  by (simp add: heap_parent_def)

lemma heap_except_swap:
  assumes he: "heap_except g b pos" and pos: "0 < pos" "pos < length b"
    and q: "q = heap_parent pos" and lt: "g (b ! q) < g (b ! pos)"
  shows "heap_except g (b[pos := b ! q, q := b ! pos]) q"
proof -
  define b' where "b' = b[pos := b ! q, q := b ! pos]"
  have qpos: "q < pos" using pos q heap_parent_less by simp
  have len: "length b' = length b" by (simp add: b'_def)
  have vq: "b' ! q = b ! pos" using qpos pos by (simp add: b'_def)
  have vpos: "b' ! pos = b ! q" using qpos pos by (simp add: b'_def)
  have vo: "\<And>i. i \<noteq> q \<Longrightarrow> i \<noteq> pos \<Longrightarrow> b' ! i = b ! i" by (simp add: b'_def)
  have E: "\<And>i. 1 \<le> i \<Longrightarrow> i < length b \<Longrightarrow> i \<noteq> pos \<Longrightarrow> g (b ! i) \<le> g (b ! heap_parent i)"
    using he by (simp add: heap_except_def)
  have G: "\<And>c. 1 \<le> c \<Longrightarrow> c < length b \<Longrightarrow> heap_parent c = pos \<Longrightarrow> g (b ! c) \<le> g (b ! q)"
    using he pos q by (simp add: heap_except_def)
  have part1: "g (b' ! i) \<le> g (b' ! heap_parent i)"
    if i: "1 \<le> i" "i < length b" "i \<noteq> q" for i
  proof -
    define p where "p = heap_parent i"
    have pi: "p < i" unfolding p_def using i(1) heap_parent_less by simp
    have goal: "g (b' ! i) \<le> g (b' ! p)"
    proof (cases "i = pos")
      case True
      then have "p = q" using p_def q by simp
      then show ?thesis using True vq vpos lt by simp
    next
      case ip: False
      have bi: "b' ! i = b ! i" using vo i(3) ip by simp
      have Ei: "g (b ! i) \<le> g (b ! p)" using E[OF i(1,2) ip] p_def by simp
      consider "p = q" | "p = pos" | "p \<noteq> q" "p \<noteq> pos" by blast
      then show ?thesis
      proof cases
        case 1
        then show ?thesis using bi Ei vq lt by simp
      next
        case 2
        then have "g (b ! i) \<le> g (b ! q)" using G[OF i(1,2)] p_def by simp
        then show ?thesis using 2 bi vpos by simp
      next
        case 3
        then show ?thesis using bi Ei vo by simp
      qed
    qed
    then show ?thesis using p_def by simp
  qed
  have part2: "g (b' ! c) \<le> g (b' ! heap_parent q)"
    if c: "1 \<le> c" "c < length b" "heap_parent c = q" "0 < q" for c
  proof -
    define r where "r = heap_parent q"
    have rq: "r < q" unfolding r_def using c(4) heap_parent_less by simp
    have qq: "g (b ! q) \<le> g (b ! r)" using E[of q] c(4) qpos pos r_def by simp
    have vr: "b' ! r = b ! r" using vo rq qpos by simp
    have cq: "c \<noteq> q" using c(1,3) heap_parent_less[of c] by auto
    have goal: "g (b' ! c) \<le> g (b' ! r)"
    proof (cases "c = pos")
      case True
      then show ?thesis using vpos qq vr by simp
    next
      case False
      then have "g (b ! c) \<le> g (b ! q)" using E[OF c(1,2)] c(3) by simp
      then show ?thesis using vo[OF cq False] qq vr by simp
    qed
    then show ?thesis using r_def by simp
  qed
  show ?thesis unfolding heap_except_def b'_def[symmetric] len
    using part1 part2 by simp
qed

lemma siftdown_loop_unfold:
  "siftdown_loop lt a 0 pos x =
     (if 0 < pos then
        (case lt x (a ! heap_parent pos) of
           Inl e \<Rightarrow> Inl e
         | Inr b \<Rightarrow> if b then siftdown_loop lt (a[pos := a ! heap_parent pos]) 0 (heap_parent pos) x
                    else Inr (a[pos := x]))
      else Inr (a[pos := x]))"
  unfolding heap_parent_def
  by (rule trans[OF siftdown_loop.simps]) (simp only: Let_def)

lemma heap_except_zero: "heap_except g b 0 \<Longrightarrow> is_heap g b"
  by (simp add: heap_except_def is_heap_def)

lemma heap_except_close:
  assumes "heap_except g b pos" "0 < pos" "pos < length b" "g (b ! pos) \<le> g (b ! heap_parent pos)"
  shows "is_heap g b"
  unfolding is_heap_def
proof
  fix i assume i: "i \<in> {1..<length b}"
  show "g (b ! i) \<le> g (b ! heap_parent i)"
  proof (cases "i = pos")
    case True
    then show ?thesis using assms(4) by simp
  next
    case False
    then show ?thesis using assms(1) i by (simp add: heap_except_def)
  qed
qed

lemma siftdown_loop_heap:
  assumes "pos < length a" "heap_except g (a[pos := x]) pos" "lt_by lt g S" "set a \<subseteq> S" "x \<in> S"
  shows "\<exists>a'. siftdown_loop lt a 0 pos x = Inr a' \<and> is_heap g a' \<and> mset a' = mset (a[pos := x])"
  using assms
proof (induction pos arbitrary: a rule: less_induct)
  case (less pos)
  define b where "b = a[pos := x]"
  have he: "heap_except g b pos" using less.prems(2) b_def by simp
  have lenb: "length b = length a" by (simp add: b_def)
  have bpos: "b ! pos = x" using less.prems(1) by (simp add: b_def)
  show ?case
  proof (cases "pos = 0")
    case True
    have "is_heap g b" using he True heap_except_zero by simp
    then show ?thesis using True b_def by (subst siftdown_loop_unfold) simp
  next
    case False
    define q where "q = heap_parent pos"
    have qpos: "q < pos" using False q_def heap_parent_less by simp
    have qlen: "q < length a" using qpos less.prems(1) by simp
    have aq: "a ! q \<in> S" using less.prems(4) qlen nth_mem by blast
    have bq: "b ! q = a ! q" using qpos by (simp add: b_def)
    have ltv: "lt x (a ! q) = Inr (g x > g (a ! q))"
      using less.prems(3,5) aq by (simp add: lt_by_def)
    show ?thesis
    proof (cases "g x > g (a ! q)")
      case True
      define a1 where "a1 = a[pos := a ! q]"
      have sw: "heap_except g (b[pos := b ! q, q := b ! pos]) q"
        by (rule heap_except_swap[OF he]) (use False less.prems(1) lenb q_def True bq bpos in simp_all)
      have eq: "b[pos := b ! q, q := b ! pos] = a1[q := x]"
        using bq bpos by (simp add: b_def a1_def)
      have ms: "mset (b[pos := b ! q, q := b ! pos]) = mset b"
        by (rule mset_swap) (use qlen less.prems(1) lenb in simp_all)
      have sub: "set a1 \<subseteq> S"
        using less.prems(4) aq set_update_subset_insert[of a pos "a ! q"] unfolding a1_def by blast
      have len1: "q < length a1" using qlen by (simp add: a1_def)
      have he1: "heap_except g (a1[q := x]) q" using sw eq by simp
      from less.IH[OF qpos len1 he1 less.prems(3) sub less.prems(5)]
      obtain a' where r: "siftdown_loop lt a1 0 q x = Inr a'" "is_heap g a'"
        "mset a' = mset (a1[q := x])" by blast
      have "siftdown_loop lt a 0 pos x = Inr a'"
        using False ltv True r(1) by (subst siftdown_loop_unfold) (simp add: q_def[symmetric] a1_def[symmetric])
      moreover have "mset a' = mset (a[pos := x])" using r(3) ms eq b_def by simp
      ultimately show ?thesis using r(2) by blast
    next
      case False2: False
      have "is_heap g b"
        by (rule heap_except_close[OF he]) (use False less.prems(1) lenb bpos bq False2 q_def in simp_all)
      moreover have "siftdown_loop lt a 0 pos x = Inr b"
        using False ltv False2 by (subst siftdown_loop_unfold) (simp add: q_def[symmetric] b_def)
      ultimately show ?thesis using b_def by simp
    qed
  qed
qed

lemma is_heap_Nil: "is_heap g []"
  by (simp add: is_heap_def)

lemma is_heap_butlast: "is_heap g h \<Longrightarrow> is_heap g (butlast h)"
  unfolding is_heap_def
proof
  fix i assume h: "\<forall>i\<in>{1..<length h}. g (h ! i) \<le> g (h ! heap_parent i)"
    and i: "i \<in> {1..<length (butlast h)}"
  have il: "i < length h - 1" "1 \<le> i" using i by simp_all
  have pl: "heap_parent i < length h - 1" using heap_parent_less[of i] il by simp
  have "g (h ! i) \<le> g (h ! heap_parent i)" using h il by simp
  then show "g (butlast h ! i) \<le> g (butlast h ! heap_parent i)"
    using il pl by (simp add: nth_butlast)
qed

lemma is_heap_cong:
  assumes "\<And>x. x \<in> set h \<Longrightarrow> g x = g' x" "is_heap g h"
  shows "is_heap g' h"
  unfolding is_heap_def
proof
  fix i assume i: "i \<in> {1..<length h}"
  have pl: "heap_parent i < length h" using heap_parent_less[of i] i by simp
  have "g (h ! i) \<le> g (h ! heap_parent i)" using assms(2) i by (simp add: is_heap_def)
  moreover have "g (h ! i) = g' (h ! i)" using assms(1) i by simp
  moreover have "g (h ! heap_parent i) = g' (h ! heap_parent i)" using assms(1) pl by simp
  ultimately show "g' (h ! i) \<le> g' (h ! heap_parent i)" by simp
qed

lemma is_heap_root_max:
  assumes "is_heap g h" "i < length h"
  shows "g (h ! i) \<le> g (h ! 0)"
  using assms(2)
proof (induction i rule: less_induct)
  case (less i)
  show ?case
  proof (cases "i = 0")
    case True
    then show ?thesis by simp
  next
    case False
    have p: "heap_parent i < i" using False heap_parent_less by simp
    have "g (h ! i) \<le> g (h ! heap_parent i)" using assms(1) False less.prems by (simp add: is_heap_def)
    moreover have "g (h ! heap_parent i) \<le> g (h ! 0)" using less.IH[OF p] p less.prems by simp
    ultimately show ?thesis by simp
  qed
qed

lemma heappush_heap:
  assumes "is_heap g h" "lt_by lt g S" "set h \<subseteq> S" "x \<in> S"
  shows "\<exists>h'. heappush lt h x = Inr h' \<and> is_heap g h' \<and> mset h' = add_mset x (mset h)"
proof -
  define a where "a = h @ [x]"
  have ax: "a[length h := x] = a" by (simp add: a_def)
  have he: "heap_except g a (length h)"
    unfolding heap_except_def
  proof (intro conjI ballI impI)
    fix i assume i: "i \<in> {1..<length a}" "i \<noteq> length h"
    then have il: "i < length h" "1 \<le> i" by (simp_all add: a_def)
    have pl: "heap_parent i < length h" using heap_parent_less[of i] il by simp
    have "g (h ! i) \<le> g (h ! heap_parent i)" using assms(1) il by (simp add: is_heap_def)
    then show "g (a ! i) \<le> g (a ! heap_parent i)" using il pl by (simp add: a_def nth_append)
  next
    fix c assume c: "c \<in> {1..<length a}" "heap_parent c = length h \<and> 0 < length h"
    have "heap_parent c < c" using c(1) heap_parent_less by simp
    then have False using c by (simp add: a_def)
    then show "g (a ! c) \<le> g (a ! heap_parent (length h))" by simp
  qed
  have "\<exists>a'. siftdown_loop lt a 0 (length h) x = Inr a' \<and> is_heap g a' \<and> mset a' = mset (a[length h := x])"
    by (rule siftdown_loop_heap[where S = S]) (use he ax assms in \<open>simp_all add: a_def\<close>)
  then show ?thesis by (simp add: heappush_def siftdown_def ax a_def[symmetric]) (simp add: a_def)
qed

lemma heap_parent_child: "1 \<le> c \<Longrightarrow> (heap_parent c = pos) = (c = 2 * pos + 1 \<or> c = 2 * pos + 2)"
  unfolding heap_parent_def by arith

lemma heap_below_step:
  assumes hb: "heap_below g a pos" and c: "1 \<le> c" "c < length a" "heap_parent c = pos"
    and best: "\<And>d. 1 \<le> d \<Longrightarrow> d < length a \<Longrightarrow> heap_parent d = pos \<Longrightarrow> g (a ! d) \<le> g (a ! c)"
  shows "heap_below g (a[pos := a ! c]) c"
proof -
  define a1 where "a1 = a[pos := a ! c]"
  have pc: "pos < c" using c heap_parent_less[of c] by simp
  have len: "length a1 = length a" by (simp add: a1_def)
  have vpos: "a1 ! pos = a ! c" using pc c by (simp add: a1_def)
  have vo: "\<And>i. i \<noteq> pos \<Longrightarrow> a1 ! i = a ! i" by (simp add: a1_def)
  have B1: "\<And>i. 1 \<le> i \<Longrightarrow> i < length a \<Longrightarrow> heap_parent i \<noteq> pos \<Longrightarrow> g (a ! i) \<le> g (a ! heap_parent i)"
    using hb by (simp add: heap_below_def)
  have B2: "\<And>d. 1 \<le> d \<Longrightarrow> d < length a \<Longrightarrow> heap_parent d = pos \<Longrightarrow> 0 < pos \<Longrightarrow>
                g (a ! d) \<le> g (a ! heap_parent pos)"
    using hb by (simp add: heap_below_def)
  have part1: "g (a1 ! i) \<le> g (a1 ! heap_parent i)"
    if i: "1 \<le> i" "i < length a" "heap_parent i \<noteq> c" for i
  proof -
    define p where "p = heap_parent i"
    have pi: "p < i" unfolding p_def using i(1) heap_parent_less by simp
    have goal: "g (a1 ! i) \<le> g (a1 ! p)"
    proof (cases "i = pos")
      case True
      then have "p \<noteq> pos" using pi by simp
      then have "a1 ! p = a ! p" using vo by simp
      moreover have "g (a ! c) \<le> g (a ! heap_parent pos)" using B2[OF c] True i(1) by simp
      ultimately show ?thesis using True vpos p_def by simp
    next
      case ip: False
      show ?thesis
      proof (cases "p = pos")
        case True
        have "g (a ! i) \<le> g (a ! c)" using best[OF i(1,2)] True p_def by simp
        then show ?thesis using True vpos vo[OF ip] by simp
      next
        case False
        have "g (a ! i) \<le> g (a ! p)" using B1[OF i(1,2)] False p_def by simp
        then show ?thesis using vo[OF ip] vo[OF False] by simp
      qed
    qed
    then show ?thesis using p_def by simp
  qed
  have part2: "g (a1 ! d) \<le> g (a1 ! heap_parent c)"
    if d: "1 \<le> d" "d < length a" "heap_parent d = c" for d
  proof -
    have cd: "c < d" using d heap_parent_less[of d] by simp
    have "heap_parent d \<noteq> pos" using d(3) pc by simp
    then have "g (a ! d) \<le> g (a ! c)" using B1[OF d(1,2)] d(3) by simp
    moreover have "a1 ! d = a ! d" using vo cd pc by simp
    ultimately show ?thesis using c(3) vpos by simp
  qed
  show ?thesis unfolding heap_below_def a1_def[symmetric] len
    using part1 part2 by simp
qed

lemma heap_below_leaf:
  assumes hb: "heap_below g a pos" and leaf: "length a \<le> 2 * pos + 1"
  shows "heap_except g (a[pos := x]) pos"
proof -
  have nochild: "heap_parent i \<noteq> pos" if "1 \<le> i" "i < length a" for i
    using that leaf heap_parent_child[of i pos] by auto
  have part1: "g (a[pos := x] ! i) \<le> g (a[pos := x] ! heap_parent i)"
    if i: "1 \<le> i" "i < length a" "i \<noteq> pos" for i
  proof -
    have "g (a ! i) \<le> g (a ! heap_parent i)"
      using hb i nochild[OF i(1,2)] by (simp add: heap_below_def)
    then show ?thesis using i(3) nochild[OF i(1,2)] by simp
  qed
  show ?thesis unfolding heap_except_def using part1 nochild by simp
qed

lemma siftup_loop_unfold:
  assumes "l = 2 * pos + 1" "r = 2 * pos + 2"
  shows "siftup_loop lt a n pos l =
     (if l < n then
        (case (if r < n
               then (case lt (a ! l) (a ! r) of
                       Inl e \<Rightarrow> Inl e
                     | Inr b \<Rightarrow> Inr (if \<not> b then r else l))
               else Inr l) of
           Inl e \<Rightarrow> Inl e
         | Inr c \<Rightarrow> siftup_loop lt (a[pos := a ! c]) n c (2 * c + 1))
      else Inr (a, pos))"
proof -
  have e: "l + 1 = r" using assms by simp
  show ?thesis
    by (rule trans[OF siftup_loop.simps]) (simp only: Let_def e)
qed

lemma siftup_loop_heap:
  assumes "heap_below g a pos" "pos < length a" "lt_by lt g S" "set a \<subseteq> S"
  shows "\<exists>a' pos'. siftup_loop lt a (length a) pos (2 * pos + 1) = Inr (a', pos') \<and>
           pos' < length a' \<and> heap_except g (a'[pos' := x]) pos' \<and>
           mset (a'[pos' := x]) = mset (a[pos := x]) \<and> set a' \<subseteq> S"
  using assms
proof (induction "length a - pos" arbitrary: a pos rule: less_induct)
  case less
  show ?case
  proof (cases "2 * pos + 1 < length a")
    case False
    have "heap_except g (a[pos := x]) pos"
      by (rule heap_below_leaf[OF less.prems(1)]) (use False in simp)
    moreover have "siftup_loop lt a (length a) pos (2 * pos + 1) = Inr (a, pos)"
      using False by (simp only: siftup_loop_unfold[OF refl refl, of lt a "length a" pos] if_False)
    ultimately show ?thesis using less.prems(2,4) by simp
  next
    case True
    define l where "l = 2 * pos + 1"
    define r where "r = 2 * pos + 2"
    define ch where "ch = (if r < length a
               then (case lt (a ! l) (a ! r) of
                       Inl e \<Rightarrow> Inl e
                     | Inr b \<Rightarrow> Inr (if \<not> b then r else l))
               else Inr l)"
    have ll: "l < length a" using True l_def by simp
    have al: "a ! l \<in> S" using less.prems(4) ll nth_mem by blast
    have kids: "d = l \<or> d = r" if "1 \<le> d" "heap_parent d = pos" for d
      using heap_parent_child[OF that(1), of pos] that(2) l_def r_def by simp
    have pl: "1 \<le> l" "1 \<le> r" "pos < l" "pos < r" using l_def r_def by simp_all
    have hpl: "heap_parent l = pos" using heap_parent_child[OF pl(1), of pos] l_def by simp
    have hpr: "heap_parent r = pos" using heap_parent_child[OF pl(2), of pos] r_def by simp
    have "\<exists>c. ch = Inr c \<and> (c = l \<or> c = r) \<and> c < length a \<and>
            (r < length a \<longrightarrow> g (a ! r) \<le> g (a ! c)) \<and> g (a ! l) \<le> g (a ! c)"
    proof (cases "r < length a")
      case False
      then have "ch = Inr l" by (simp add: ch_def)
      then show ?thesis using False ll by simp
    next
      case rl: True
      have ar: "a ! r \<in> S" using less.prems(4) rl nth_mem by blast
      have ltv: "lt (a ! l) (a ! r) = Inr (g (a ! l) > g (a ! r))"
        using less.prems(3) al ar by (simp add: lt_by_def)
      show ?thesis
      proof (cases "g (a ! l) > g (a ! r)")
        case True
        have "ch = Inr l" using rl ltv True by (simp add: ch_def)
        then show ?thesis using True ll by simp
      next
        case False
        have "ch = Inr r" using rl ltv False by (simp add: ch_def)
        then show ?thesis using False rl by simp
      qed
    qed
    then obtain c where c: "ch = Inr c" "c = l \<or> c = r" "c < length a"
       "r < length a \<longrightarrow> g (a ! r) \<le> g (a ! c)" "g (a ! l) \<le> g (a ! c)" by blast
    have best: "g (a ! d) \<le> g (a ! c)" if d: "1 \<le> d" "d < length a" "heap_parent d = pos" for d
    proof -
      from kids[OF d(1,3)] show ?thesis
      proof
        assume "d = l" then show ?thesis using c(5) by simp
      next
        assume "d = r" then show ?thesis using c(4) d(2) by simp
      qed
    qed
    have c1: "1 \<le> c" using c(2) pl(1,2) by blast
    have c2: "heap_parent c = pos" using c(2) hpl hpr by blast
    have pc: "pos < c" using c(2) pl(3,4) by blast
    define a1 where "a1 = a[pos := a ! c]"
    have hb1: "heap_below g a1 c" unfolding a1_def
      by (rule heap_below_step[OF less.prems(1) c1 c(3) c2]) (rule best)
    have len1: "length a1 = length a" by (simp add: a1_def)
    have ac: "a ! c \<in> S" using less.prems(4) c(3) nth_mem by blast
    have sub1: "set a1 \<subseteq> S"
      using less.prems(4) ac set_update_subset_insert[of a pos "a ! c"] unfolding a1_def by blast
    have m: "length a1 - c < length a - pos" using pc c(3) len1 by simp
    have cl1: "c < length a1" using c(3) len1 by simp
    from less.hyps[OF m hb1 cl1 less.prems(3) sub1]
    obtain a' pos' where r: "siftup_loop lt a1 (length a1) c (2 * c + 1) = Inr (a', pos')"
      "pos' < length a'" "heap_except g (a'[pos' := x]) pos'"
      "mset (a'[pos' := x]) = mset (a1[c := x])" "set a' \<subseteq> S" by blast
    define b where "b = a[pos := x]"
    have bc: "b ! c = a ! c" "b ! pos = x" using pc less.prems(2) by (simp_all add: b_def)
    have "a1[c := x] = b[pos := b ! c, c := b ! pos]"
      unfolding bc by (simp add: a1_def b_def)
    moreover have "mset (b[pos := b ! c, c := b ! pos]) = mset b"
      by (rule mset_swap) (use c(3) less.prems(2) in \<open>simp_all add: b_def\<close>)
    ultimately have ms: "mset (a'[pos' := x]) = mset (a[pos := x])" using r(4) b_def by simp
    have "siftup_loop lt a (length a) pos l = siftup_loop lt a1 (length a) c (2 * c + 1)"
      by (simp only: siftup_loop_unfold[OF l_def r_def, of lt a "length a"] ll if_True ch_def[symmetric] c(1) sum.case a1_def)
    then have "siftup_loop lt a (length a) pos (2 * pos + 1) = Inr (a', pos')"
      using r(1) len1 l_def by simp
    then show ?thesis using r(2,3,5) ms by blast
  qed
qed

lemma heappop_heap:
  assumes "is_heap g h" "h \<noteq> []" "lt_by lt g S" "set h \<subseteq> S"
  shows "\<exists>h'. heappop lt h = Inr (h ! 0, h') \<and> is_heap g h' \<and> mset h = add_mset (h ! 0) (mset h')"
proof (cases "butlast h = []")
  case True
  then have "h = [last h]" using assms(2) by (metis append_butlast_last_id append_Nil)
  then have "h ! 0 = last h" by (metis nth_Cons_0)
  moreover have "mset h = {#last h#}" using \<open>h = [last h]\<close> by (metis mset.simps(1) mset.simps(2))
  ultimately show ?thesis using True assms(2) by (simp add: heappop_def is_heap_Nil)
next
  case False
  define h1 where "h1 = butlast h"
  define x where "x = last h"
  define a where "a = h1[0 := x]"
  have hx: "h = h1 @ [x]" using assms(2) h1_def x_def by simp
  have h1ne: "h1 \<noteq> []" using False h1_def by simp
  have h0: "h ! 0 = h1 ! 0" using hx h1ne by (simp add: nth_append)
  have hp1: "is_heap g h1" using assms(1) is_heap_butlast h1_def by blast
  have lena: "length a = length h1" "0 < length a" using h1ne by (simp_all add: a_def)
  have a0: "a ! 0 = x" using h1ne by (simp add: a_def)
  have hb: "heap_below g a 0"
    unfolding heap_below_def
  proof (intro conjI ballI impI)
    fix i assume i: "i \<in> {1..<length a}" "heap_parent i \<noteq> 0"
    have "g (h1 ! i) \<le> g (h1 ! heap_parent i)" using hp1 i lena by (simp add: is_heap_def)
    then show "g (a ! i) \<le> g (a ! heap_parent i)" using i by (simp add: a_def)
  next
    fix c assume "c \<in> {1..<length a}" "heap_parent c = 0 \<and> (0::nat) < 0"
    then show "g (a ! c) \<le> g (a ! heap_parent 0)" by simp
  qed
  have xs: "x \<in> S" using assms(4) hx by simp
  have suba: "set a \<subseteq> S"
    using assms(4) hx xs set_update_subset_insert[of h1 0 x] unfolding a_def by auto
  from siftup_loop_heap[OF hb lena(2) assms(3) suba, of x]
  obtain a' pos' where r: "siftup_loop lt a (length a) 0 (2 * 0 + 1) = Inr (a', pos')"
      "pos' < length a'" "heap_except g (a'[pos' := x]) pos'"
      "mset (a'[pos' := x]) = mset (a[0 := x])" "set a' \<subseteq> S" by blast
  define b where "b = a'[pos' := x]"
  have subb: "set b \<subseteq> S"
    using r(5) xs set_update_subset_insert[of a' pos' x] unfolding b_def by blast
  have "\<exists>h2. siftdown_loop lt b 0 pos' x = Inr h2 \<and> is_heap g h2 \<and> mset h2 = mset (b[pos' := x])"
    by (rule siftdown_loop_heap[where S = S]) (use r(2,3) assms(3) subb xs in \<open>simp_all add: b_def\<close>)
  then obtain h2 where h2: "siftdown_loop lt b 0 pos' x = Inr h2" "is_heap g h2" "mset h2 = mset b"
    by (auto simp: b_def)
  have bp: "b ! pos' = x" using r(2) by (simp add: b_def)
  have su: "siftup lt a 0 = Inr h2"
    using r(1) h2(1) a0 bp by (simp add: siftup_def siftdown_def b_def[symmetric])
  have "mset b = mset a" using r(4) a0 b_def by (metis list_update_id)
  also have "\<dots> = add_mset x (mset h1 - {#h1 ! 0#})"
    using h1ne by (simp add: a_def mset_update)
  finally have mb: "mset b = add_mset x (mset h1 - {#h1 ! 0#})" .
  have "h1 ! 0 \<in># mset h1" using h1ne by simp
  then have "mset h = add_mset (h ! 0) (mset h2)"
    using hx h0 h2(3) mb by simp
  moreover have "heappop lt h = Inr (h ! 0, h2)"
    using assms(2) False su h0
    by (simp add: heappop_def Let_def h1_def[symmetric] x_def[symmetric] a_def[symmetric])
  ultimately show ?thesis using h2(2) by blast
qed

subsection \<open>The operations of the grower keep the state well formed\<close>

lemma lt_by_node_lt:
  "\<forall>i\<in>S. split_info (ns ! i) \<noteq> None \<Longrightarrow> lt_by (node_lt ns) (gain_of ns) S"
  by (auto simp: lt_by_def node_lt_def TreeNode_lt_def gain_of_def split: option.splits)

lemma split_next_unfold:
  assumes "splittable_nodes s \<noteq> []"
    and "heappop (node_lt (nodes s)) (splittable_nodes s) = Inr (node, q)"
    and "split_info (nodes s ! node) = Some si"
    and "node < length (nodes s)"
  shows "split_next s =
     (let s6 = with_children s node q si;
          l = length (nodes s);
          r = length (nodes s) + 1;
          depth' = depth (nodes s ! node) + 1;
          n_leaf_nodes = int (length (finalized_leaves s)) + int (length q) + 2
      in if max_depth s \<noteq> None \<and> Some depth' = max_depth s then
           Inr (finalize_leaf (finalize_leaf s6 l) r, l, r)
         else if max_leaf_nodes s \<noteq> None \<and> Some n_leaf_nodes = max_leaf_nodes s then
           Inr (finalize_splittable_nodes (finalize_leaf (finalize_leaf s6 l) r), l, r)
         else
           (case compute_spittability s6 l of
              Inl e \<Rightarrow> Inl e
            | Inr s7 \<Rightarrow>
                (case compute_spittability s7 r of
                   Inl e \<Rightarrow> Inl e
                 | Inr s8 \<Rightarrow> Inr (s8, l, r))))"
proof -
  have e: "\<And>x y f g. ((nodes s @ [x])[node := f] @ [y])[node := g] = (nodes s)[node := g] @ [x, y]"
    using assms(4) by (simp add: list_update_append1)
  show ?thesis
    using assms
    by (simp add: split_next_def Let_def new_node_def with_children_def split_beta nth_append e
          cong: sum.case_cong)
qed


subsection \<open>Finalizing a leaf\<close>

lemma finalize_leaf_fields:
  "splittable_nodes (finalize_leaf s i) = splittable_nodes s"
  "finalized_leaves (finalize_leaf s i) = finalized_leaves s @ [i]"
  "length (nodes (finalize_leaf s i)) = length (nodes s)"
  "n_nodes (finalize_leaf s i) = n_nodes s"
  "evaluator_calls (finalize_leaf s i) = evaluator_calls s"
  "same_config s (finalize_leaf s i)"
  "j \<noteq> i \<Longrightarrow> nodes (finalize_leaf s i) ! j = nodes s ! j"
  "i < length (nodes s) \<Longrightarrow>
     nodes (finalize_leaf s i) ! i = (nodes s ! i)\<lparr>weight := Some (leaf_value s (nodes s ! i))\<rparr>"
  by (simp_all add: finalize_leaf_def same_config_def leaf_value_def)

lemma finalize_leaf_nth:
  "nodes (finalize_leaf s i) ! j =
     (if j = i \<and> i < length (nodes s)
      then (nodes s ! i)\<lparr>weight := Some (leaf_value s (nodes s ! i))\<rparr>
      else nodes s ! j)"
proof (cases "j = i")
  case True
  then show ?thesis by (cases "i < length (nodes s)") (simp_all add: finalize_leaf_def leaf_value_def list_update_beyond)
next
  case False
  then show ?thesis by (simp add: finalize_leaf_def)
qed

lemma finalize_leaf_links:
  "left_child (nodes (finalize_leaf s i) ! j) = left_child (nodes s ! j)"
  "right_child (nodes (finalize_leaf s i) ! j) = right_child (nodes s ! j)"
  "split_info (nodes (finalize_leaf s i) ! j) = split_info (nodes s ! j)"
  "depth (nodes (finalize_leaf s i) ! j) = depth (nodes s ! j)"
  "sum_gradients (nodes (finalize_leaf s i) ! j) = sum_gradients (nodes s ! j)"
  "sum_hessians (nodes (finalize_leaf s i) ! j) = sum_hessians (nodes s ! j)"
  by (simp_all add: finalize_leaf_nth)

lemma store_ok_distinct:
  "store_ok P s \<Longrightarrow> distinct (splittable_nodes s @ finalized_leaves s @ P)"
  by (simp add: store_ok_def)

lemma store_ok_bound:
  "store_ok P s \<Longrightarrow> j \<in> set (splittable_nodes s) \<or> j \<in> set (finalized_leaves s) \<or> j \<in> set P
     \<Longrightarrow> j < length (nodes s)"
  unfolding store_ok_def by auto

lemma store_ok_node: "store_ok P s \<Longrightarrow> j < length (nodes s) \<Longrightarrow> node_ok P s j"
  unfolding store_ok_def by simp

lemma store_okI:
  assumes "distinct (splittable_nodes s @ finalized_leaves s @ P)"
    "\<And>j. j \<in> set (splittable_nodes s) \<or> j \<in> set (finalized_leaves s) \<or> j \<in> set P
        \<Longrightarrow> j < length (nodes s)"
    "\<And>j. j < length (nodes s) \<Longrightarrow> node_ok P s j"
  shows "store_ok P s"
  unfolding store_ok_def using assms by auto

lemma leaf_value_cong:
  "shrinkage s' = shrinkage s \<Longrightarrow> splitter s' = splitter s \<Longrightarrow>
   sum_gradients nd' = sum_gradients nd \<Longrightarrow> sum_hessians nd' = sum_hessians nd \<Longrightarrow>
   leaf_value s' nd' = leaf_value s nd"
  by (simp add: leaf_value_def)

lemma node_ok_cong:
  assumes "nodes s' ! j = nodes s ! j"
    "(j \<in> set (splittable_nodes s')) = (j \<in> set (splittable_nodes s))"
    "(j \<in> set (finalized_leaves s')) = (j \<in> set (finalized_leaves s))"
    "j \<notin> set (splittable_nodes s) \<Longrightarrow> j \<notin> set (finalized_leaves s) \<Longrightarrow> (j \<in> set P') = (j \<in> set P)"
    "same_config s s'"
  shows "node_ok P' s' j = node_ok P s j"
proof -
  have "leaf_value s' (nodes s ! j) = leaf_value s (nodes s ! j)"
    using assms(5) by (simp add: leaf_value_def same_config_def)
  moreover have "min_gain_to_split s' = min_gain_to_split s"
    using assms(5) by (simp add: same_config_def)
  ultimately show ?thesis
    using assms(1-4) by (simp add: node_ok_def Let_def)
qed

lemma store_ok_finalize_leaf:
  assumes "store_ok (i # P) s"
  shows "store_ok P (finalize_leaf s i)"
proof (rule store_okI)
  let ?s = "finalize_leaf s i"
  have d: "distinct (splittable_nodes s @ finalized_leaves s @ i # P)"
    using assms by (rule store_ok_distinct)
  have il: "i < length (nodes s)" using store_ok_bound[OF assms, of i] by simp
  have iq: "i \<notin> set (splittable_nodes s)" "i \<notin> set (finalized_leaves s)" "i \<notin> set P"
    using d by auto
  show "distinct (splittable_nodes ?s @ finalized_leaves ?s @ P)"
    using d by (auto simp: finalize_leaf_fields)
  show "j < length (nodes ?s)"
    if "j \<in> set (splittable_nodes ?s) \<or> j \<in> set (finalized_leaves ?s) \<or> j \<in> set P" for j
    using that store_ok_bound[OF assms, of j] il by (auto simp: finalize_leaf_fields)
  show "node_ok P ?s j" if j: "j < length (nodes ?s)" for j
  proof (cases "j = i")
    case True
    have "weight (nodes s ! i) = None \<and> left_child (nodes s ! i) = None \<and> right_child (nodes s ! i) = None"
      using store_ok_node[OF assms il] iq by (simp add: node_ok_def Let_def)
    moreover have "leaf_value ?s ((nodes s ! i)\<lparr>weight := Some (leaf_value s (nodes s ! i))\<rparr>)
        = leaf_value s (nodes s ! i)"
      by (rule leaf_value_cong) (use finalize_leaf_fields(6)[of s i] in \<open>simp_all add: same_config_def\<close>)
    ultimately show ?thesis
      using True iq il by (simp add: node_ok_def Let_def finalize_leaf_fields)
  next
    case False
    have "node_ok P ?s j = node_ok (i # P) s j"
      by (rule node_ok_cong) (use False in \<open>simp_all add: finalize_leaf_fields\<close>)
    then show ?thesis using store_ok_node[OF assms, of j] j by (simp add: finalize_leaf_fields)
  qed
qed

lemma count_ok_finalize_leaf: "count_ok (i # P) s \<Longrightarrow> count_ok P (finalize_leaf s i)"
  by (simp add: count_ok_def finalize_leaf_fields)

lemma gain_of_finalize_leaf: "gain_of (nodes (finalize_leaf s i)) = gain_of (nodes s)"
  by (rule ext) (simp add: gain_of_def finalize_leaf_links)

lemma heap_ok_finalize_leaf: "heap_ok s \<Longrightarrow> heap_ok (finalize_leaf s i)"
  by (simp add: heap_ok_def gain_of_finalize_leaf finalize_leaf_fields)

lemma depth_ok_finalize_leaf: "depth_ok s \<Longrightarrow> depth_ok (finalize_leaf s i)"
proof -
  have "max_depth (finalize_leaf s i) = max_depth s"
    using finalize_leaf_fields(6)[of s i] by (simp add: same_config_def)
  then show "depth_ok s \<Longrightarrow> depth_ok (finalize_leaf s i)"
    by (simp add: depth_ok_def finalize_leaf_links finalize_leaf_fields(3) split: option.splits)
qed

lemma shape_links:
  assumes "length ns' = length ns"
    "\<And>j. left_child (ns' ! j) = left_child (ns ! j)"
    "\<And>j. right_child (ns' ! j) = right_child (ns ! j)"
  shows "tree_shape ns' t = tree_shape ns t"
  by (induction t) (simp_all add: assms)

lemma tree_of_links:
  assumes "length (nodes s') = length (nodes s)"
    "\<And>j. left_child (nodes s' ! j) = left_child (nodes s ! j)"
    "\<And>j. right_child (nodes s' ! j) = right_child (nodes s ! j)"
    "root_node s' = root_node s"
  shows "tree_of s' t = tree_of s t"
  using shape_links[of "nodes s'" "nodes s" t, OF assms(1,2,3)] assms(1,4)
  by (simp add: tree_of_def)

lemma tree_of_finalize_leaf: "tree_of (finalize_leaf s i) t = tree_of s t"
  by (rule tree_of_links)
     (use finalize_leaf_fields(6)[of s i] in \<open>simp_all add: finalize_leaf_links finalize_leaf_fields(3) same_config_def\<close>)

lemma grower_inv_finalize_leaf:
  assumes "grower_inv (i # P) s"
  shows "grower_inv P (finalize_leaf s i)"
  using assms
  by (simp add: grower_inv_def store_ok_finalize_leaf count_ok_finalize_leaf heap_ok_finalize_leaf
        depth_ok_finalize_leaf tree_ok_def tree_of_finalize_leaf)


subsection \<open>Evaluating a node\<close>

lemma evaluated_nth:
  "(ns[i := (ns ! i)\<lparr>split_info := x\<rparr>]) ! j =
     (if j = i \<and> i < length ns then (ns ! i)\<lparr>split_info := x\<rparr> else ns ! j)"
proof (cases "j = i")
  case True
  then show ?thesis by (cases "i < length ns") (simp_all add: list_update_beyond)
next
  case False
  then show ?thesis by simp
qed

lemma grower_inv_evaluated:
  assumes inv: "grower_inv (i # P) s"
    and dp: "\<And>d. max_depth s = Some d \<Longrightarrow> depth (nodes s ! i) \<noteq> d"
  shows "grower_inv (i # P)
           (s\<lparr>evaluator_calls := c, nodes := (nodes s)[i := (nodes s ! i)\<lparr>split_info := Some si\<rparr>]\<rparr>)"
proof -
  define s1 where "s1 = s\<lparr>evaluator_calls := c, nodes := (nodes s)[i := (nodes s ! i)\<lparr>split_info := Some si\<rparr>]\<rparr>"
  have st: "store_ok (i # P) s" and co: "count_ok (i # P) s" and he: "heap_ok s"
    and de: "depth_ok s" and tr: "tree_ok s"
    using inv by (simp_all add: grower_inv_def)
  have f: "splittable_nodes s1 = splittable_nodes s" "finalized_leaves s1 = finalized_leaves s"
    "length (nodes s1) = length (nodes s)" "n_nodes s1 = n_nodes s" "same_config s s1"
    "max_depth s1 = max_depth s" "root_node s1 = root_node s"
    by (simp_all add: s1_def same_config_def)
  have nth: "\<And>j. nodes s1 ! j =
     (if j = i \<and> i < length (nodes s) then (nodes s ! i)\<lparr>split_info := Some si\<rparr> else nodes s ! j)"
    by (simp add: s1_def evaluated_nth)
  have d: "distinct (splittable_nodes s @ finalized_leaves s @ i # P)"
    using st by (rule store_ok_distinct)
  have il: "i < length (nodes s)" using store_ok_bound[OF st, of i] by simp
  have iq: "i \<notin> set (splittable_nodes s)" "i \<notin> set (finalized_leaves s)"
    using d by auto
  have st1: "store_ok (i # P) s1"
  proof (rule store_okI)
    show "distinct (splittable_nodes s1 @ finalized_leaves s1 @ i # P)" using d f by simp
    show "j < length (nodes s1)"
      if "j \<in> set (splittable_nodes s1) \<or> j \<in> set (finalized_leaves s1) \<or> j \<in> set (i # P)" for j
      using that store_ok_bound[OF st, of j] f by simp
    show "node_ok (i # P) s1 j" if j: "j < length (nodes s1)" for j
    proof (cases "j = i")
      case True
      have "weight (nodes s ! i) = None \<and> left_child (nodes s ! i) = None \<and> right_child (nodes s ! i) = None"
        using store_ok_node[OF st il] iq by (simp add: node_ok_def Let_def)
      then show ?thesis using True iq il f by (simp add: node_ok_def Let_def nth)
    next
      case False
      have "node_ok (i # P) s1 j = node_ok (i # P) s j"
        by (rule node_ok_cong) (use False f in \<open>simp_all add: nth\<close>)
      then show ?thesis using store_ok_node[OF st, of j] j f by simp
    qed
  qed
  have co1: "count_ok (i # P) s1" using co f by (simp add: count_ok_def)
  have "is_heap (gain_of (nodes s1)) (splittable_nodes s)"
  proof (rule is_heap_cong[of _ "gain_of (nodes s)"])
    fix x assume "x \<in> set (splittable_nodes s)"
    then have "x \<noteq> i" using iq by blast
    then show "gain_of (nodes s) x = gain_of (nodes s1) x" by (simp add: gain_of_def nth)
  next
    show "is_heap (gain_of (nodes s)) (splittable_nodes s)" using he by (simp add: heap_ok_def)
  qed
  then have he1: "heap_ok s1" using f by (simp add: heap_ok_def)
  have de1: "depth_ok s1"
  proof (cases "max_depth s")
    case None
    then show ?thesis using f by (simp add: depth_ok_def)
  next
    case (Some d)
    have "depth (nodes s1 ! j) \<le> d \<and> (depth (nodes s1 ! j) = d \<longrightarrow> split_info (nodes s1 ! j) = None)"
      if j: "j < length (nodes s)" for j
    proof -
      have o: "depth (nodes s ! j) \<le> d \<and> (depth (nodes s ! j) = d \<longrightarrow> split_info (nodes s ! j) = None)"
        using de Some j by (simp add: depth_ok_def)
      show ?thesis
      proof (cases "j = i")
        case True
        then show ?thesis using o dp[OF Some] il by (simp add: nth)
      next
        case False
        then show ?thesis using o by (simp add: nth)
      qed
    qed
    then show ?thesis using Some f by (simp add: depth_ok_def)
  qed
  have "\<And>t. tree_of s1 t = tree_of s t"
    by (rule tree_of_links) (use f in \<open>simp_all add: nth\<close>)
  then have tr1: "tree_ok s1" using tr by (simp add: tree_ok_def)
  show ?thesis
    unfolding s1_def[symmetric] grower_inv_def using st1 co1 he1 de1 tr1 by simp
qed

lemma grower_inv_enqueue:
  assumes inv: "grower_inv (i # P) s"
    and si: "split_info (nodes s ! i) = Some si" "\<not> gain si < min_gain_to_split s"
  shows "\<exists>q. heappush (node_lt (nodes s)) (splittable_nodes s) i = Inr q \<and>
           length q = length (splittable_nodes s) + 1 \<and>
           grower_inv P (s\<lparr>splittable_nodes := q\<rparr>)"
proof -
  have st: "store_ok (i # P) s" and co: "count_ok (i # P) s" and he: "heap_ok s"
    and de: "depth_ok s" and tr: "tree_ok s"
    using inv by (simp_all add: grower_inv_def)
  have d: "distinct (splittable_nodes s @ finalized_leaves s @ i # P)"
    using st by (rule store_ok_distinct)
  have il: "i < length (nodes s)" using store_ok_bound[OF st, of i] by simp
  have iq: "i \<notin> set (splittable_nodes s)" "i \<notin> set (finalized_leaves s)" "i \<notin> set P"
    using d by auto
  define S where "S = insert i (set (splittable_nodes s))"
  have "split_info (nodes s ! j) \<noteq> None" if "j \<in> S" for j
  proof (cases "j = i")
    case True
    then show ?thesis using si by simp
  next
    case False
    then have jq: "j \<in> set (splittable_nodes s)" using that S_def by simp
    then have "j < length (nodes s)" using store_ok_bound[OF st, of j] by simp
    then show ?thesis using store_ok_node[OF st, of j] jq by (auto simp: node_ok_def Let_def)
  qed
  then have lb: "lt_by (node_lt (nodes s)) (gain_of (nodes s)) S"
    by (intro lt_by_node_lt) simp
  have "\<exists>h'. heappush (node_lt (nodes s)) (splittable_nodes s) i = Inr h' \<and>
          is_heap (gain_of (nodes s)) h' \<and> mset h' = add_mset i (mset (splittable_nodes s))"
    by (rule heappush_heap[where S = S]) (use he lb in \<open>auto simp: heap_ok_def S_def\<close>)
  then obtain q where q: "heappush (node_lt (nodes s)) (splittable_nodes s) i = Inr q"
    "is_heap (gain_of (nodes s)) q" "mset q = mset (i # splittable_nodes s)" by auto
  define s' where "s' = s\<lparr>splittable_nodes := q\<rparr>"
  have f: "splittable_nodes s' = q" "finalized_leaves s' = finalized_leaves s"
    "nodes s' = nodes s" "n_nodes s' = n_nodes s" "same_config s s'"
    "max_depth s' = max_depth s" "root_node s' = root_node s"
    by (simp_all add: s'_def same_config_def)
  have setq: "set q = insert i (set (splittable_nodes s))" using mset_eq_setD[OF q(3)] by simp
  have disq: "distinct q" using mset_eq_imp_distinct_iff[OF q(3)] d iq by simp
  have lenq: "length q = length (splittable_nodes s) + 1" using mset_eq_length[OF q(3)] by simp
  have st': "store_ok P s'"
  proof (rule store_okI)
    show "distinct (splittable_nodes s' @ finalized_leaves s' @ P)"
      using d disq setq f by auto
    show "j < length (nodes s')"
      if "j \<in> set (splittable_nodes s') \<or> j \<in> set (finalized_leaves s') \<or> j \<in> set P" for j
      using that store_ok_bound[OF st, of j] f setq by auto
    show "node_ok P s' j" if j: "j < length (nodes s')" for j
    proof (cases "j = i")
      case True
      have "weight (nodes s ! i) = None \<and> left_child (nodes s ! i) = None \<and> right_child (nodes s ! i) = None"
        using store_ok_node[OF st il] iq by (simp add: node_ok_def Let_def)
      moreover have "min_gain_to_split s' = min_gain_to_split s" by (simp add: s'_def)
      ultimately show ?thesis using True f setq si by (simp add: node_ok_def Let_def)
    next
      case False
      have "node_ok P s' j = node_ok (i # P) s j"
        by (rule node_ok_cong) (use False f setq in simp_all)
      then show ?thesis using store_ok_node[OF st, of j] j f by simp
    qed
  qed
  have co': "count_ok P s'" using co f lenq by (simp add: count_ok_def)
  have he': "heap_ok s'" using q(2) f by (simp add: heap_ok_def)
  have de': "depth_ok s'" using de f by (simp add: depth_ok_def cong: option.case_cong)
  have "\<And>t. tree_of s' t = tree_of s t" using f by (simp add: tree_of_def)
  then have tr': "tree_ok s'" using tr by (simp add: tree_ok_def)
  show ?thesis
    using q(1) lenq st' co' he' de' tr' unfolding s'_def grower_inv_def by simp
qed

lemma compute_spittability_inv:
  assumes inv: "grower_inv (i # P) s"
    and dp: "\<And>d. max_depth s = Some d \<Longrightarrow> depth (nodes s ! i) \<noteq> d"
  shows "\<exists>s'. compute_spittability s i = Inr s' \<and> grower_inv P s' \<and> same_config s s' \<and>
           n_nodes s' = n_nodes s \<and>
           length (splittable_nodes s') + length (finalized_leaves s') =
             length (splittable_nodes s) + length (finalized_leaves s) + 1 \<and>
           (\<not> gain (find_node_split (splitter s) (sample_indices (nodes s ! i)))
                < min_gain_to_split s \<longrightarrow>
              finalized_leaves s' = finalized_leaves s \<and> splittable_nodes s' \<noteq> [])"
proof -
  define si where "si = find_node_split (splitter s) (sample_indices (nodes s ! i))"
  define s1 where "s1 = s\<lparr>evaluator_calls := evaluator_calls s @ [sample_indices (nodes s ! i)],
                 nodes := (nodes s)[i := (nodes s ! i)\<lparr>split_info := Some si\<rparr>]\<rparr>"
  have inv1: "grower_inv (i # P) s1"
    unfolding s1_def by (rule grower_inv_evaluated[OF inv dp])
  have f: "splittable_nodes s1 = splittable_nodes s" "finalized_leaves s1 = finalized_leaves s"
    "n_nodes s1 = n_nodes s" "same_config s s1" "min_gain_to_split s1 = min_gain_to_split s"
    by (simp_all add: s1_def same_config_def)
  have il: "i < length (nodes s)"
    using inv store_ok_bound[of "i # P" s i] by (simp add: grower_inv_def)
  have si1: "split_info (nodes s1 ! i) = Some si" using il by (simp add: s1_def)
  have cs: "compute_spittability s i =
      (if gain si < min_gain_to_split s1 then Inr (finalize_leaf s1 i)
       else (case heappush (node_lt (nodes s1)) (splittable_nodes s1) i of
                 Inl e \<Rightarrow> Inl e
               | Inr q \<Rightarrow> Inr (s1\<lparr>splittable_nodes := q\<rparr>)))"
    by (simp only: compute_spittability_def Let_def si_def[symmetric] s1_def[symmetric])
  show ?thesis
  proof (cases "gain si < min_gain_to_split s")
    case True
    have "grower_inv P (finalize_leaf s1 i)" using inv1 by (rule grower_inv_finalize_leaf)
    moreover have "same_config s (finalize_leaf s1 i)"
      using f(4) finalize_leaf_fields(6)[of s1 i] by (simp add: same_config_def)
    ultimately show ?thesis
      using True cs f by (simp add: finalize_leaf_fields si_def[symmetric])
  next
    case False
    have "\<not> gain si < min_gain_to_split s1" using False f by simp
    from grower_inv_enqueue[OF inv1 si1 this]
    obtain q where q: "heappush (node_lt (nodes s1)) (splittable_nodes s1) i = Inr q"
      "length q = length (splittable_nodes s1) + 1"
      "grower_inv P (s1\<lparr>splittable_nodes := q\<rparr>)" by blast
    have "same_config s (s1\<lparr>splittable_nodes := q\<rparr>)"
      using f(4) by (simp add: same_config_def)
    moreover have "q \<noteq> []" using q(2) by auto
    ultimately show ?thesis
      using False cs q f by (simp add: si_def[symmetric])
  qed
qed

lemma compute_spittability_frame:
  assumes "compute_spittability s i = Inr s'"
  shows "length (nodes s') = length (nodes s)"
    "left_child (nodes s' ! j) = left_child (nodes s ! j)"
    "right_child (nodes s' ! j) = right_child (nodes s ! j)"
    "depth (nodes s' ! j) = depth (nodes s ! j)"
    "j \<noteq> i \<Longrightarrow> split_info (nodes s' ! j) = split_info (nodes s ! j)"
    "sum_gradients (nodes s' ! j) = sum_gradients (nodes s ! j)"
    "sum_hessians (nodes s' ! j) = sum_hessians (nodes s ! j)"
  using assms
  by (auto simp: compute_spittability_def Let_def finalize_leaf_links finalize_leaf_fields
        evaluated_nth split: if_splits sum.splits)


subsection \<open>Growing the tree shape\<close>

lemma root_of_graft: "root_of (graft n l r t) = root_of t"
  by (cases t) simp_all

lemma graft_absent: "n \<notin> set (ids t) \<Longrightarrow> graft n l r t = t"
  by (induction t) simp_all

lemma shape_bound: "tree_shape ns t \<Longrightarrow> j \<in> set (ids t) \<Longrightarrow> j < length ns"
  by (induction t) auto

lemma shape_frame:
  assumes "tree_shape ns t" "length ns \<le> length ns'" "\<And>j. j \<in> set (ids t) \<Longrightarrow> ns' ! j = ns ! j"
  shows "tree_shape ns' t"
  using assms
proof (induction t)
  case (PLeaf i)
  then show ?case by simp
next
  case (PNode i a b)
  have "tree_shape ns' a" using PNode.IH(1) PNode.prems by simp
  moreover have "tree_shape ns' b" using PNode.IH(2) PNode.prems by simp
  moreover have "ns' ! i = ns ! i" using PNode.prems(3) by simp
  ultimately show ?case using PNode.prems(1,2) by simp
qed

lemma graft_shape:
  assumes sh: "tree_shape ns t" and n: "n \<in> set (ids t)" and leaf: "left_child (ns ! n) = None"
    and dis: "distinct (ids t)"
    and len: "length ns' = length ns + 2"
    and old: "\<And>j. j < length ns \<Longrightarrow> j \<noteq> n \<Longrightarrow> ns' ! j = ns ! j"
    and par: "left_child (ns' ! n) = Some (length ns)" "right_child (ns' ! n) = Some (length ns + 1)"
    and kid: "left_child (ns' ! length ns) = None" "right_child (ns' ! length ns) = None"
      "left_child (ns' ! (length ns + 1)) = None" "right_child (ns' ! (length ns + 1)) = None"
  shows "tree_shape ns' (graft n (length ns) (length ns + 1) t) \<and>
         set (ids (graft n (length ns) (length ns + 1) t)) =
           insert (length ns) (insert (length ns + 1) (set (ids t))) \<and>
         distinct (ids (graft n (length ns) (length ns + 1) t))"
  using sh n dis
proof (induction t)
  case (PLeaf i)
  then have "i = n" "n < length ns" by simp_all
  then show ?case using len par kid by auto
next
  case (PNode i a b)
  let ?l = "length ns" and ?r = "length ns + 1"
  have i: "i < length ns" "i \<noteq> n" using PNode.prems(1) leaf by auto
  have nsi: "ns' ! i = ns ! i" using old i by simp
  have sa: "tree_shape ns a" and sb: "tree_shape ns b" using PNode.prems(1) by simp_all
  have da: "distinct (ids a)" and db: "distinct (ids b)"
    and dab: "set (ids a) \<inter> set (ids b) = {}" and ia: "i \<notin> set (ids a)" and ib: "i \<notin> set (ids b)"
    using PNode.prems(3) by auto
  have ba: "\<And>j. j \<in> set (ids a) \<Longrightarrow> j < length ns" using shape_bound[OF sa] by blast
  have bb: "\<And>j. j \<in> set (ids b) \<Longrightarrow> j < length ns" using shape_bound[OF sb] by blast
  have fresh: "?l \<notin> set (ids a)" "?r \<notin> set (ids a)" "?l \<notin> set (ids b)" "?r \<notin> set (ids b)"
    using ba bb by fastforce+
  from PNode.prems(2) i(2) have "n \<in> set (ids a) \<or> n \<in> set (ids b)" by simp
  then show ?case
  proof
    assume na: "n \<in> set (ids a)"
    then have nb: "n \<notin> set (ids b)" using dab by blast
    have ih: "tree_shape ns' (graft n ?l ?r a)"
      "set (ids (graft n ?l ?r a)) = insert ?l (insert ?r (set (ids a)))"
      "distinct (ids (graft n ?l ?r a))"
      using PNode.IH(1)[OF sa na da] by simp_all
    have gb: "graft n ?l ?r b = b" using nb by (rule graft_absent)
    have sb': "tree_shape ns' b"
      by (rule shape_frame[OF sb]) (use len old bb nb in auto)
    have "tree_shape ns' (PNode i (graft n ?l ?r a) b)"
      using ih(1) sb' nsi PNode.prems(1) i len by (simp add: root_of_graft)
    moreover have "set (ids (PNode i (graft n ?l ?r a) b)) =
        insert ?l (insert ?r (set (ids (PNode i a b))))"
      using ih(2) by auto
    moreover have "distinct (ids (PNode i (graft n ?l ?r a) b))"
      using ih(2,3) db dab ia ib fresh i(1) by auto
    ultimately show ?thesis using gb by simp
  next
    assume nb: "n \<in> set (ids b)"
    then have na: "n \<notin> set (ids a)" using dab by blast
    have ih: "tree_shape ns' (graft n ?l ?r b)"
      "set (ids (graft n ?l ?r b)) = insert ?l (insert ?r (set (ids b)))"
      "distinct (ids (graft n ?l ?r b))"
      using PNode.IH(2)[OF sb nb db] by simp_all
    have ga: "graft n ?l ?r a = a" using na by (rule graft_absent)
    have sa': "tree_shape ns' a"
      by (rule shape_frame[OF sa]) (use len old ba na in auto)
    have "tree_shape ns' (PNode i a (graft n ?l ?r b))"
      using ih(1) sa' nsi PNode.prems(1) i len by (simp add: root_of_graft)
    moreover have "set (ids (PNode i a (graft n ?l ?r b))) =
        insert ?l (insert ?r (set (ids (PNode i a b))))"
      using ih(2) by auto
    moreover have "distinct (ids (PNode i a (graft n ?l ?r b)))"
      using ih(2,3) da dab ia ib fresh i(1) by auto
    ultimately show ?thesis using ga by simp
  qed
qed


subsection \<open>Taking a node from the queue and creating its children\<close>

lemma grower_inv_dequeue:
  assumes inv: "grower_inv P s"
    and ms: "mset (splittable_nodes s) = add_mset node (mset q)"
    and hp: "is_heap (gain_of (nodes s)) q"
  shows "grower_inv (node # P) (s\<lparr>splittable_nodes := q\<rparr>)"
    and "\<exists>si. split_info (nodes s ! node) = Some si \<and> \<not> gain si < min_gain_to_split s"
    and "node < length (nodes s)"
proof -
  define s' where "s' = s\<lparr>splittable_nodes := q\<rparr>"
  have st: "store_ok P s" and co: "count_ok P s" and he: "heap_ok s"
    and de: "depth_ok s" and tr: "tree_ok s"
    using inv by (simp_all add: grower_inv_def)
  have f: "splittable_nodes s' = q" "finalized_leaves s' = finalized_leaves s"
    "nodes s' = nodes s" "n_nodes s' = n_nodes s" "same_config s s'"
    "max_depth s' = max_depth s" "root_node s' = root_node s"
    by (simp_all add: s'_def same_config_def)
  have ms': "mset (splittable_nodes s) = mset (node # q)" using ms by simp
  have setq: "set (splittable_nodes s) = insert node (set q)" using mset_eq_setD[OF ms'] by simp
  have d: "distinct (splittable_nodes s @ finalized_leaves s @ P)"
    using st by (rule store_ok_distinct)
  have dq: "distinct (node # q)" using mset_eq_imp_distinct_iff[OF ms'] d by simp
  have lenq: "length (splittable_nodes s) = length q + 1" using mset_eq_length[OF ms'] by simp
  have nq: "node \<in> set (splittable_nodes s)" using setq by simp
  show nl: "node < length (nodes s)" using store_ok_bound[OF st, of node] nq by simp
  have nk: "(\<exists>si. split_info (nodes s ! node) = Some si \<and> \<not> gain si < min_gain_to_split s) \<and>
        weight (nodes s ! node) = None \<and> left_child (nodes s ! node) = None \<and>
        right_child (nodes s ! node) = None"
    using store_ok_node[OF st nl] nq by (simp add: node_ok_def Let_def)
  then show "\<exists>si. split_info (nodes s ! node) = Some si \<and> \<not> gain si < min_gain_to_split s"
    by simp
  have st': "store_ok (node # P) s'"
  proof (rule store_okI)
    show "distinct (splittable_nodes s' @ finalized_leaves s' @ node # P)"
      using d dq setq f by auto
    show "j < length (nodes s')"
      if "j \<in> set (splittable_nodes s') \<or> j \<in> set (finalized_leaves s') \<or> j \<in> set (node # P)" for j
      using that store_ok_bound[OF st, of j] f setq by auto
    show "node_ok (node # P) s' j" if j: "j < length (nodes s')" for j
    proof (cases "j = node")
      case True
      have "node \<notin> set (finalized_leaves s)" using d nq by auto
      then show ?thesis using True nk dq f by (simp add: node_ok_def Let_def)
    next
      case False
      have "node_ok (node # P) s' j = node_ok P s j"
        by (rule node_ok_cong) (use False f setq in simp_all)
      then show ?thesis using store_ok_node[OF st, of j] j f by simp
    qed
  qed
  have co': "count_ok (node # P) s'" using co f lenq by (simp add: count_ok_def)
  have he': "heap_ok s'" using hp f by (simp add: heap_ok_def)
  have de': "depth_ok s'" using de f by (simp add: depth_ok_def cong: option.case_cong)
  have "\<And>t. tree_of s' t = tree_of s t" using f by (simp add: tree_of_def)
  then have tr': "tree_ok s'" using tr by (simp add: tree_ok_def)
  show "grower_inv (node # P) (s\<lparr>splittable_nodes := q\<rparr>)"
    using st' co' he' de' tr' unfolding s'_def grower_inv_def by simp
qed

lemma with_children_fields:
  "splittable_nodes (with_children s node q si) = q"
  "finalized_leaves (with_children s node q si) = finalized_leaves s"
  "length (nodes (with_children s node q si)) = length (nodes s) + 2"
  "n_nodes (with_children s node q si) = n_nodes s + 2"
  "evaluator_calls (with_children s node q si) = evaluator_calls s"
  "same_config s (with_children s node q si)"
  by (simp_all add: with_children_def same_config_def)

lemma with_children_nth:
  assumes "node < length (nodes s)"
  shows "nodes (with_children s node q si) ! node =
           (nodes s ! node)\<lparr>left_child := Some (length (nodes s)),
                             right_child := Some (length (nodes s) + 1)\<rparr>"
    and "j < length (nodes s) \<Longrightarrow> j \<noteq> node \<Longrightarrow> nodes (with_children s node q si) ! j = nodes s ! j"
    and "nodes (with_children s node q si) ! length (nodes s) =
           TreeNode (depth (nodes s ! node) + 1)
             (fst (split_indices (splitter s) (sample_indices (nodes s ! node)) si))
             (gradient_left si) (hessian_left si)"
    and "nodes (with_children s node q si) ! (length (nodes s) + 1) =
           TreeNode (depth (nodes s ! node) + 1)
             (snd (split_indices (splitter s) (sample_indices (nodes s ! node)) si))
             (gradient_right si) (hessian_right si)"
  using assms by (simp_all add: with_children_def nth_append)

lemma grower_inv_children:
  assumes inv: "grower_inv (node # P) (s\<lparr>splittable_nodes := q\<rparr>)"
    and si: "split_info (nodes s ! node) = Some si"
  shows "grower_inv (length (nodes s) # (length (nodes s) + 1) # P) (with_children s node q si)"
proof -
  define s1 where "s1 = s\<lparr>splittable_nodes := q\<rparr>"
  define s6 where "s6 = with_children s node q si"
  define n where "n = length (nodes s)"
  have st: "store_ok (node # P) s1" and co: "count_ok (node # P) s1" and he: "heap_ok s1"
    and de: "depth_ok s1" and tr: "tree_ok s1"
    using inv by (simp_all add: grower_inv_def s1_def)
  have f1: "splittable_nodes s1 = q" "finalized_leaves s1 = finalized_leaves s"
    "nodes s1 = nodes s" "n_nodes s1 = n_nodes s" "same_config s s1"
    "max_depth s1 = max_depth s" "root_node s1 = root_node s"
    by (simp_all add: s1_def same_config_def)
  have f6: "splittable_nodes s6 = q" "finalized_leaves s6 = finalized_leaves s"
    "length (nodes s6) = n + 2" "n_nodes s6 = n_nodes s + 2" "same_config s s6"
    by (simp_all add: s6_def n_def with_children_fields)
  have cfg: "same_config s1 s6" "max_depth s6 = max_depth s" "root_node s6 = root_node s"
    using f1(5) f6(5) by (simp_all add: same_config_def)
  have d: "distinct (q @ finalized_leaves s @ node # P)"
    using store_ok_distinct[OF st] f1 by simp
  have bnd: "\<And>j. j \<in> set q \<or> j \<in> set (finalized_leaves s) \<or> j \<in> set (node # P) \<Longrightarrow> j < n"
    using store_ok_bound[OF st] f1 n_def by simp
  have nl: "node < n" using bnd[of node] by simp
  have nn: "node \<notin> set q" "node \<notin> set (finalized_leaves s)" "node \<notin> set P" using d by auto
  have fr: "n \<notin> set q" "n \<notin> set (finalized_leaves s)" "n \<notin> set P"
    "Suc n \<notin> set q" "Suc n \<notin> set (finalized_leaves s)" "Suc n \<notin> set P"
    using bnd[of n] bnd[of "Suc n"] by auto
  have nthn: "nodes s6 ! node = (nodes s ! node)\<lparr>left_child := Some n, right_child := Some (n + 1)\<rparr>"
    using with_children_nth(1)[of node s q si] nl by (simp add: s6_def n_def)
  have ntho: "\<And>j. j < n \<Longrightarrow> j \<noteq> node \<Longrightarrow> nodes s6 ! j = nodes s ! j"
    using with_children_nth(2)[of node s _ q si] nl by (simp add: s6_def n_def)
  have nthl: "nodes s6 ! n = TreeNode (depth (nodes s ! node) + 1)
             (fst (split_indices (splitter s) (sample_indices (nodes s ! node)) si))
             (gradient_left si) (hessian_left si)"
    using with_children_nth(3)[of node s q si] nl by (simp add: s6_def n_def)
  have nthr: "nodes s6 ! Suc n = TreeNode (depth (nodes s ! node) + 1)
             (snd (split_indices (splitter s) (sample_indices (nodes s ! node)) si))
             (gradient_right si) (hessian_right si)"
    using with_children_nth(4)[of node s q si] nl by (simp add: s6_def n_def)
  have nk: "weight (nodes s ! node) = None"
    using store_ok_node[OF st, of node] nl nn f1 by (simp add: node_ok_def Let_def n_def)
  have st6: "store_ok (n # Suc n # P) s6"
  proof (rule store_okI)
    show "distinct (splittable_nodes s6 @ finalized_leaves s6 @ n # Suc n # P)"
      using d fr f6 by auto
    show "j < length (nodes s6)"
      if "j \<in> set (splittable_nodes s6) \<or> j \<in> set (finalized_leaves s6) \<or> j \<in> set (n # Suc n # P)" for j
      using that bnd[of j] f6 by auto
    show "node_ok (n # Suc n # P) s6 j" if j: "j < length (nodes s6)" for j
    proof -
      consider "j = node" | "j = n" | "j = Suc n" | "j < n" "j \<noteq> node"
        using j f6 by fastforce
      then show ?thesis
      proof cases
        case 1
        then show ?thesis using nn nl nk si nthn f6 by (simp add: node_ok_def Let_def)
      next
        case 2
        then show ?thesis using fr nthl f6 by (simp add: node_ok_def Let_def TreeNode_def)
      next
        case 3
        then show ?thesis using fr nthr f6 by (simp add: node_ok_def Let_def TreeNode_def)
      next
        case 4
        have "node_ok (n # Suc n # P) s6 j = node_ok (node # P) s1 j"
          by (rule node_ok_cong) (use 4 f1 f6 cfg ntho in simp_all)
        then show ?thesis using store_ok_node[OF st, of j] 4 f1 n_def by simp
      qed
    qed
  qed
  have co6: "count_ok (n # Suc n # P) s6" using co f1 f6 n_def by (simp add: count_ok_def)
  have "is_heap (gain_of (nodes s6)) q"
  proof (rule is_heap_cong[of _ "gain_of (nodes s)"])
    fix x assume x: "x \<in> set q"
    then have "x < n" "x \<noteq> node" using bnd[of x] nn by auto
    then show "gain_of (nodes s) x = gain_of (nodes s6) x" using ntho by (simp add: gain_of_def)
  next
    show "is_heap (gain_of (nodes s)) q" using he f1 by (simp add: heap_ok_def)
  qed
  then have he6: "heap_ok s6" using f6 by (simp add: heap_ok_def)
  have de6: "depth_ok s6"
  proof (cases "max_depth s")
    case None
    then show ?thesis using cfg by (simp add: depth_ok_def)
  next
    case (Some dm)
    have o: "depth (nodes s ! j) \<le> dm \<and> (depth (nodes s ! j) = dm \<longrightarrow> split_info (nodes s ! j) = None)"
      if "j < n" for j
      using de Some that f1 n_def by (simp add: depth_ok_def)
    have dn: "depth (nodes s ! node) + 1 \<le> dm" using o[OF nl] si by auto
    have "depth (nodes s6 ! j) \<le> dm \<and> (depth (nodes s6 ! j) = dm \<longrightarrow> split_info (nodes s6 ! j) = None)"
      if j: "j < n + 2" for j
    proof -
      consider "j = node" | "j = n" | "j = Suc n" | "j < n" "j \<noteq> node"
        using j by fastforce
      then show ?thesis
      proof cases
        case 1
        then show ?thesis using o[OF nl] nthn by simp
      next
        case 2
        then show ?thesis using dn nthl by (simp add: TreeNode_def)
      next
        case 3
        then show ?thesis using dn nthr by (simp add: TreeNode_def)
      next
        case 4
        then show ?thesis using o[of j] ntho by simp
      qed
    qed
    then show ?thesis using Some cfg f6 by (simp add: depth_ok_def)
  qed
  obtain t where t: "tree_shape (nodes s) t" "root_of t = root_node s" "distinct (ids t)"
      "set (ids t) = {0..<n}"
    using tr f1 n_def by (auto simp: tree_ok_def tree_of_def)
  have lc: "left_child (nodes s ! node) = None"
    using store_ok_node[OF st, of node] nl nn f1 by (simp add: node_ok_def Let_def n_def)
  have g: "tree_shape (nodes s6) (graft node (length (nodes s)) (length (nodes s) + 1) t) \<and>
         set (ids (graft node (length (nodes s)) (length (nodes s) + 1) t)) =
           insert (length (nodes s)) (insert (length (nodes s) + 1) (set (ids t))) \<and>
         distinct (ids (graft node (length (nodes s)) (length (nodes s) + 1) t))"
    by (rule graft_shape[OF t(1) _ lc t(3)])
       (use t(4) nl f6 ntho nthn nthl nthr n_def in \<open>simp_all add: TreeNode_def\<close>)
  have "tree_of s6 (graft node n (Suc n) t)"
    using g t(2,4) cfg f6 n_def by (auto simp: tree_of_def root_of_graft)
  then have tr6: "tree_ok s6" by (auto simp: tree_ok_def)
  show ?thesis
    using st6 co6 he6 de6 tr6 unfolding s6_def n_def grower_inv_def by simp
qed

subsection \<open>Draining the queue\<close>

lemma finalize_splittable_nodes_inv:
  "grower_inv P s \<Longrightarrow>
     grower_inv P (finalize_splittable_nodes s) \<and>
     splittable_nodes (finalize_splittable_nodes s) = [] \<and>
     same_config s (finalize_splittable_nodes s) \<and>
     n_nodes (finalize_splittable_nodes s) = n_nodes s \<and>
     length (finalized_leaves (finalize_splittable_nodes s)) =
       length (finalized_leaves s) + length (splittable_nodes s) \<and>
     length (nodes (finalize_splittable_nodes s)) = length (nodes s) \<and>
     (\<forall>j. left_child (nodes (finalize_splittable_nodes s) ! j) = left_child (nodes s ! j) \<and>
          right_child (nodes (finalize_splittable_nodes s) ! j) = right_child (nodes s ! j))"
proof (induction s rule: finalize_splittable_nodes.induct)
  case (1 s)
  show ?case
  proof (cases "length (splittable_nodes s) > 0")
    case False
    then have "finalize_splittable_nodes s = s" by (subst finalize_splittable_nodes.simps) simp
    then show ?thesis using False "1.prems" by (simp add: same_config_def)
  next
    case True
    define node where "node = last (splittable_nodes s)"
    define s1 where "s1 = s\<lparr>splittable_nodes := butlast (splittable_nodes s)\<rparr>"
    define s2 where "s2 = finalize_leaf s1 node"
    have u: "finalize_splittable_nodes s = finalize_splittable_nodes s2"
      using True
      by (subst finalize_splittable_nodes.simps)
         (simp add: Let_def node_def[symmetric] s1_def[symmetric] s2_def[symmetric])
    have ne: "splittable_nodes s \<noteq> []" using True by simp
    have ms: "mset (splittable_nodes s) = add_mset node (mset (butlast (splittable_nodes s)))"
      using ne unfolding node_def by (metis append_butlast_last_id mset.simps(1) mset.simps(2) mset_append union_mset_add_mset_right add.right_neutral)
    have hp: "is_heap (gain_of (nodes s)) (butlast (splittable_nodes s))"
      using "1.prems" by (simp add: grower_inv_def heap_ok_def is_heap_butlast)
    have inv1: "grower_inv (node # P) s1"
      unfolding s1_def by (rule grower_inv_dequeue(1)[OF "1.prems" ms hp])
    have inv2: "grower_inv P s2" unfolding s2_def using inv1 by (rule grower_inv_finalize_leaf)
    have ih: "grower_inv P (finalize_splittable_nodes s2) \<and>
     splittable_nodes (finalize_splittable_nodes s2) = [] \<and>
     same_config s2 (finalize_splittable_nodes s2) \<and>
     n_nodes (finalize_splittable_nodes s2) = n_nodes s2 \<and>
     length (finalized_leaves (finalize_splittable_nodes s2)) =
       length (finalized_leaves s2) + length (splittable_nodes s2) \<and>
     length (nodes (finalize_splittable_nodes s2)) = length (nodes s2) \<and>
     (\<forall>j. left_child (nodes (finalize_splittable_nodes s2) ! j) = left_child (nodes s2 ! j) \<and>
          right_child (nodes (finalize_splittable_nodes s2) ! j) = right_child (nodes s2 ! j))"
      using "1.IH"[OF True node_def s1_def] inv2 s2_def by simp
    have f2: "same_config s s2" "n_nodes s2 = n_nodes s"
      "length (finalized_leaves s2) = length (finalized_leaves s) + 1"
      "length (splittable_nodes s2) = length (splittable_nodes s) - 1"
      "length (nodes s2) = length (nodes s)"
      "\<And>j. left_child (nodes s2 ! j) = left_child (nodes s ! j)"
      "\<And>j. right_child (nodes s2 ! j) = right_child (nodes s ! j)"
      using finalize_leaf_fields(6)[of s1 node]
      by (simp_all add: s2_def finalize_leaf_fields finalize_leaf_links s1_def same_config_def)
    have "same_config s (finalize_splittable_nodes s2)"
      using ih f2(1) by (simp add: same_config_def)
    then show ?thesis using ih f2 True by (simp add: u)
  qed
qed


subsection \<open>One step of the grower\<close>

lemma queue_evaluated:
  assumes "store_ok P s" "j \<in> set (splittable_nodes s)"
  shows "split_info (nodes s ! j) \<noteq> None"
proof -
  have "j < length (nodes s)" using store_ok_bound[OF assms(1), of j] assms(2) by simp
  then show ?thesis using store_ok_node[OF assms(1), of j] assms(2) by (auto simp: node_ok_def Let_def)
qed

lemma split_next_inv:
  assumes inv: "grower_inv [] s" and ne: "splittable_nodes s \<noteq> []"
  shows "\<exists>s' l r node.
    split_next s = Inr (s', l, r) \<and> grower_inv [] s' \<and> same_config s s' \<and>
    n_nodes s' = n_nodes s + 2 \<and>
    length (splittable_nodes s') + length (finalized_leaves s') =
      length (splittable_nodes s) + length (finalized_leaves s) + 1 \<and>
    node \<in> set (splittable_nodes s) \<and>
    (\<forall>j\<in>set (splittable_nodes s). gain_of (nodes s) j \<le> gain_of (nodes s) node) \<and>
    left_child (nodes s' ! node) = Some l \<and> right_child (nodes s' ! node) = Some r \<and>
    l = length (nodes s) \<and> r = length (nodes s) + 1 \<and>
    (max_depth s = None \<and>
     max_leaf_nodes s = Some (int (length (splittable_nodes s) + length (finalized_leaves s)) + 1)
       \<longrightarrow> splittable_nodes s' = []) \<and>
    (max_depth s = None \<and>
     max_leaf_nodes s \<noteq> Some (int (length (splittable_nodes s) + length (finalized_leaves s)) + 1) \<and>
     (\<forall>idx. \<not> gain (find_node_split (splitter s) idx) < min_gain_to_split s)
       \<longrightarrow> finalized_leaves s' = finalized_leaves s \<and> splittable_nodes s' \<noteq> [])"
proof -
  let ?Q = "splittable_nodes s" and ?F = "finalized_leaves s"
  have st: "store_ok [] s" and he: "heap_ok s" using inv by (simp_all add: grower_inv_def)
  have lb: "lt_by (node_lt (nodes s)) (gain_of (nodes s)) (set ?Q)"
    by (rule lt_by_node_lt) (use queue_evaluated[OF st] in blast)
  have "\<exists>h'. heappop (node_lt (nodes s)) ?Q = Inr (?Q ! 0, h') \<and> is_heap (gain_of (nodes s)) h' \<and>
          mset ?Q = add_mset (?Q ! 0) (mset h')"
    by (rule heappop_heap[where S = "set ?Q"]) (use he ne lb in \<open>simp_all add: heap_ok_def\<close>)
  then obtain q where q: "heappop (node_lt (nodes s)) ?Q = Inr (?Q ! 0, q)"
    "is_heap (gain_of (nodes s)) q" "mset ?Q = add_mset (?Q ! 0) (mset q)" by blast
  define node where "node = ?Q ! 0"
  have nQ: "node \<in> set ?Q" using ne node_def by simp
  have mx: "\<forall>j\<in>set ?Q. gain_of (nodes s) j \<le> gain_of (nodes s) node"
  proof
    fix j assume "j \<in> set ?Q"
    then obtain k where "k < length ?Q" "?Q ! k = j" by (auto simp: in_set_conv_nth)
    then show "gain_of (nodes s) j \<le> gain_of (nodes s) node"
      using is_heap_root_max[of "gain_of (nodes s)" ?Q k] he node_def by (auto simp: heap_ok_def)
  qed
  have lenq: "length ?Q = length q + 1"
    using mset_eq_length[of ?Q "?Q ! 0 # q"] q(3) by simp
  have inv1: "grower_inv [node] (s\<lparr>splittable_nodes := q\<rparr>)"
    using grower_inv_dequeue(1)[OF inv _ q(2), of node] q(3) node_def by simp
  obtain si where si: "split_info (nodes s ! node) = Some si"
    using grower_inv_dequeue(2)[OF inv _ q(2), of node] q(3) node_def by auto
  have nl: "node < length (nodes s)"
    using grower_inv_dequeue(3)[OF inv _ q(2), of node] q(3) node_def by simp
  define s6 where "s6 = with_children s node q si"
  define l where "l = length (nodes s)"
  define r where "r = length (nodes s) + 1"
  define dp where "dp = depth (nodes s ! node) + 1"
  define nleaf where "nleaf = int (length ?F) + int (length q) + 2"
  have inv6: "grower_inv [l, r] s6"
    using grower_inv_children[OF inv1 si] by (simp add: s6_def l_def r_def)
  have f6: "splittable_nodes s6 = q" "finalized_leaves s6 = ?F" "length (nodes s6) = length (nodes s) + 2"
    "n_nodes s6 = n_nodes s + 2" "same_config s s6"
    by (simp_all add: s6_def with_children_fields)
  have c6: "left_child (nodes s6 ! node) = Some l" "right_child (nodes s6 ! node) = Some r"
    using with_children_nth(1)[OF nl, of q si] by (simp_all add: s6_def l_def r_def)
  have d6: "depth (nodes s6 ! l) = dp" "depth (nodes s6 ! r) = dp"
    using with_children_nth(3,4)[OF nl, of q si] by (simp_all add: s6_def l_def r_def dp_def TreeNode_def)
  have nleaf_eq: "nleaf = int (length ?Q + length ?F) + 1" using lenq by (simp add: nleaf_def)
  define cA where "cA = (max_depth s \<noteq> None \<and> Some dp = max_depth s)"
  define cB where "cB = (max_leaf_nodes s \<noteq> None \<and> Some nleaf = max_leaf_nodes s)"
  have sn: "split_next s =
     (if cA then
           Inr (finalize_leaf (finalize_leaf s6 l) r, l, r)
         else if cB then
           Inr (finalize_splittable_nodes (finalize_leaf (finalize_leaf s6 l) r), l, r)
         else
           (case compute_spittability s6 l of
              Inl e \<Rightarrow> Inl e
            | Inr s7 \<Rightarrow>
                (case compute_spittability s7 r of
                   Inl e \<Rightarrow> Inl e
                 | Inr s8 \<Rightarrow> Inr (s8, l, r))))"
    using split_next_unfold[OF ne _ si nl, of q] q(1) node_def
    by (simp add: Let_def s6_def l_def r_def dp_def nleaf_def cA_def cB_def cong: sum.case_cong)
  define sA where "sA = finalize_leaf (finalize_leaf s6 l) r"
  have invA: "grower_inv [] sA"
    unfolding sA_def by (intro grower_inv_finalize_leaf) (rule inv6)
  have fA: "splittable_nodes sA = q" "finalized_leaves sA = ?F @ [l, r]"
    "n_nodes sA = n_nodes s + 2" "same_config s sA"
    "left_child (nodes sA ! node) = Some l" "right_child (nodes sA ! node) = Some r"
    using f6 c6 finalize_leaf_fields(6)[of s6 l] finalize_leaf_fields(6)[of "finalize_leaf s6 l" r]
    by (simp_all add: sA_def finalize_leaf_fields finalize_leaf_links same_config_def)
  show ?thesis
  proof (cases cA)
    case True
    have "split_next s = Inr (sA, l, r)" using sn True by (simp add: sA_def)
    moreover have "max_depth s \<noteq> None" using True cA_def by simp
    ultimately show ?thesis
      using invA fA nQ mx lenq l_def r_def by auto
  next
    case ndc: False
    have nd: "\<not> (max_depth s \<noteq> None \<and> Some dp = max_depth s)" using ndc cA_def by simp
    show ?thesis
    proof (cases cB)
      case Tc: True
      have True: "max_leaf_nodes s \<noteq> None \<and> Some nleaf = max_leaf_nodes s" using Tc cB_def by simp
      define sB where "sB = finalize_splittable_nodes sA"
      have B: "grower_inv [] sB" "splittable_nodes sB = []" "same_config sA sB"
        "n_nodes sB = n_nodes sA"
        "length (finalized_leaves sB) = length (finalized_leaves sA) + length (splittable_nodes sA)"
        "left_child (nodes sB ! node) = left_child (nodes sA ! node)"
        "right_child (nodes sB ! node) = right_child (nodes sA ! node)"
        using finalize_splittable_nodes_inv[OF invA] by (simp_all add: sB_def)
      have "same_config s sB" using fA(4) B(3) by (simp add: same_config_def)
      moreover have "split_next s = Inr (sB, l, r)" using sn ndc Tc by (simp add: sA_def sB_def)
      ultimately show ?thesis
        using B fA nQ mx lenq True nleaf_eq l_def r_def by auto
    next
      case nbc: False
      have nb: "\<not> (max_leaf_nodes s \<noteq> None \<and> Some nleaf = max_leaf_nodes s)" using nbc cB_def by simp
      have dpl: "\<And>d. max_depth s6 = Some d \<Longrightarrow> depth (nodes s6 ! l) \<noteq> d"
        using nd d6 f6(5) by (auto simp: same_config_def)
      obtain s7 where s7: "compute_spittability s6 l = Inr s7" "grower_inv [r] s7" "same_config s6 s7"
        "n_nodes s7 = n_nodes s6"
        "length (splittable_nodes s7) + length (finalized_leaves s7) =
             length (splittable_nodes s6) + length (finalized_leaves s6) + 1"
        "\<not> gain (find_node_split (splitter s6) (sample_indices (nodes s6 ! l)))
                < min_gain_to_split s6 \<longrightarrow>
              finalized_leaves s7 = finalized_leaves s6 \<and> splittable_nodes s7 \<noteq> []"
        using compute_spittability_inv[OF inv6 dpl] by blast
      have dpr: "\<And>d. max_depth s7 = Some d \<Longrightarrow> depth (nodes s7 ! r) \<noteq> d"
        using nd d6 f6(5) s7(3) compute_spittability_frame(4)[OF s7(1), of r]
        by (auto simp: same_config_def)
      obtain s8 where s8: "compute_spittability s7 r = Inr s8" "grower_inv [] s8" "same_config s7 s8"
        "n_nodes s8 = n_nodes s7"
        "length (splittable_nodes s8) + length (finalized_leaves s8) =
             length (splittable_nodes s7) + length (finalized_leaves s7) + 1"
        "\<not> gain (find_node_split (splitter s7) (sample_indices (nodes s7 ! r)))
                < min_gain_to_split s7 \<longrightarrow>
              finalized_leaves s8 = finalized_leaves s7 \<and> splittable_nodes s8 \<noteq> []"
        using compute_spittability_inv[OF s7(2) dpr] by blast
      have cfg: "same_config s s8" using f6(5) s7(3) s8(3) by (simp add: same_config_def)
      have cfg7: "splitter s7 = splitter s" "min_gain_to_split s7 = min_gain_to_split s"
        using f6(5) s7(3) by (simp_all add: same_config_def)
      have lk: "left_child (nodes s8 ! node) = Some l" "right_child (nodes s8 ! node) = Some r"
        using c6 compute_spittability_frame(2,3)[OF s7(1), of node]
          compute_spittability_frame(2,3)[OF s8(1), of node] by simp_all
      have sn8: "split_next s = Inr (s8, l, r)" using sn ndc nbc s7(1) s8(1) by simp
      have cnt: "length (splittable_nodes s8) + length (finalized_leaves s8) =
          length ?Q + length ?F + 1"
        using s7(5) s8(5) f6 lenq by simp
      have nn: "n_nodes s8 = n_nodes s + 2" using s7(4) s8(4) f6 by simp
      have g: "(\<forall>idx. \<not> gain (find_node_split (splitter s) idx) < min_gain_to_split s)
          \<longrightarrow> finalized_leaves s8 = ?F \<and> splittable_nodes s8 \<noteq> []"
        using s7(6) s8(6) f6 cfg7 by (auto simp: same_config_def)
      have nob: "\<not> (max_depth s = None \<and>
          max_leaf_nodes s = Some (int (length ?Q + length ?F) + 1))"
        using nb nleaf_eq by auto
      show ?thesis
        using sn8 s8(2) cfg nn cnt nQ mx lk g nob l_def r_def by blast
    qed
  qed
qed

subsection \<open>Construction\<close>

lemma finalize_leaf_n_nodes:
  "finalize_leaf (s\<lparr>n_nodes := k\<rparr>) i = (finalize_leaf s i)\<lparr>n_nodes := k\<rparr>"
  by (simp add: finalize_leaf_def)

lemma compute_spittability_n_nodes:
  "compute_spittability (s\<lparr>n_nodes := k\<rparr>) i =
     (case compute_spittability s i of Inl e \<Rightarrow> Inl e | Inr s' \<Rightarrow> Inr (s'\<lparr>n_nodes := k\<rparr>))"
  by (simp add: compute_spittability_def Let_def finalize_leaf_def split: sum.split)

lemma TreeGrower_init_invalid:
  assumes "\<not> valid_config fd mln md"
  shows "\<exists>e. TreeGrower_init H fd grads hess mln md mg nb l2 mh shr = Inl e"
  using assms by (auto simp: TreeGrower_init_def valid_config_def split: option.splits)

lemma TreeGrower_init_valid:
  assumes "valid_config fd mln md"
  shows "TreeGrower_init H fd grads hess mln md mg nb l2 mh shr =
     (if mln = Some 1 then Inr (finalize_leaf (root_state H fd grads hess mln md mg nb l2 mh shr) 0)
      else compute_spittability (root_state H fd grads hess mln md mg nb l2 mh shr) 0)"
proof -
  have v: "dtype fd = uint8" "\<not> (mln \<noteq> None \<and> the mln < 1)" "\<not> (md \<noteq> None \<and> the md < 1)"
    using assms by (auto simp: valid_config_def split: option.splits)
  define s0 where "s0 = \<lparr>splitter = H (snd (shape fd)) fd nb grads hess l2 mh,
                 max_leaf_nodes = mln, max_depth = md, features_data = fd,
                 min_gain_to_split = mg, shrinkage = shr,
                 splittable_nodes = [], finalized_leaves = [],
                 root_node = 0, n_nodes = 0, nodes = [], evaluator_calls = []\<rparr>"
  define s2 where "s2 = s0\<lparr>nodes := [TreeNode 0 [0..<fst (shape fd)]
                 (sum_list (all_gradients (H (snd (shape fd)) fd nb grads hess l2 mh)))
                 (sum_list (all_hessians (H (snd (shape fd)) fd nb grads hess l2 mh)))]\<rparr>"
  have rs: "root_state H fd grads hess mln md mg nb l2 mh shr = s2\<lparr>n_nodes := 1\<rparr>"
    by (simp add: root_state_def s2_def s0_def)
  have ir: "intilialize_root s0 =
      (if mln = Some 1 then Inr (finalize_leaf s2 0) else compute_spittability s2 0)"
    by (simp add: intilialize_root_def Let_def new_node_def s2_def s0_def)
  have "TreeGrower_init H fd grads hess mln md mg nb l2 mh shr =
      (case intilialize_root s0 of Inl e \<Rightarrow> Inl e | Inr s \<Rightarrow> Inr (s\<lparr>n_nodes := 1\<rparr>))"
    using v unfolding TreeGrower_init_def s0_def by (cases mln; cases md; simp)
  then have e: "TreeGrower_init H fd grads hess mln md mg nb l2 mh shr =
      (case (if mln = Some 1 then Inr (finalize_leaf s2 0) else compute_spittability s2 0) of
         Inl e \<Rightarrow> Inl e | Inr s \<Rightarrow> Inr (s\<lparr>n_nodes := 1\<rparr>))"
    by (simp only: ir)
  show ?thesis
    unfolding rs
  proof (cases "mln = Some 1")
    case True
    have "TreeGrower_init H fd grads hess mln md mg nb l2 mh shr =
        Inr ((finalize_leaf s2 0)\<lparr>n_nodes := 1\<rparr>)"
      using e True by simp
    then show "TreeGrower_init H fd grads hess mln md mg nb l2 mh shr =
     (if mln = Some 1 then Inr (finalize_leaf (s2\<lparr>n_nodes := 1\<rparr>) 0)
      else compute_spittability (s2\<lparr>n_nodes := 1\<rparr>) 0)"
      using True by (simp add: finalize_leaf_n_nodes)
  next
    case False
    have "TreeGrower_init H fd grads hess mln md mg nb l2 mh shr =
        (case compute_spittability s2 0 of
         Inl e \<Rightarrow> Inl e | Inr s \<Rightarrow> Inr (s\<lparr>n_nodes := 1\<rparr>))"
      using e False by simp
    then show "TreeGrower_init H fd grads hess mln md mg nb l2 mh shr =
     (if mln = Some 1 then Inr (finalize_leaf (s2\<lparr>n_nodes := 1\<rparr>) 0)
      else compute_spittability (s2\<lparr>n_nodes := 1\<rparr>) 0)"
      using False by (simp add: compute_spittability_n_nodes cong: sum.case_cong)
  qed
qed

lemma root_state_fields:
  "splittable_nodes (root_state H fd grads hess mln md mg nb l2 mh shr) = []"
  "finalized_leaves (root_state H fd grads hess mln md mg nb l2 mh shr) = []"
  "length (nodes (root_state H fd grads hess mln md mg nb l2 mh shr)) = 1"
  "n_nodes (root_state H fd grads hess mln md mg nb l2 mh shr) = 1"
  "root_node (root_state H fd grads hess mln md mg nb l2 mh shr) = 0"
  "max_leaf_nodes (root_state H fd grads hess mln md mg nb l2 mh shr) = mln"
  "max_depth (root_state H fd grads hess mln md mg nb l2 mh shr) = md"
  "min_gain_to_split (root_state H fd grads hess mln md mg nb l2 mh shr) = mg"
  "shrinkage (root_state H fd grads hess mln md mg nb l2 mh shr) = shr"
  "evaluator_calls (root_state H fd grads hess mln md mg nb l2 mh shr) = []"
  "depth (nodes (root_state H fd grads hess mln md mg nb l2 mh shr) ! 0) = 0"
  "split_info (nodes (root_state H fd grads hess mln md mg nb l2 mh shr) ! 0) = None"
  "weight (nodes (root_state H fd grads hess mln md mg nb l2 mh shr) ! 0) = None"
  "left_child (nodes (root_state H fd grads hess mln md mg nb l2 mh shr) ! 0) = None"
  "right_child (nodes (root_state H fd grads hess mln md mg nb l2 mh shr) ! 0) = None"
  by (simp_all add: root_state_def TreeNode_def)

lemma grower_inv_root_state:
  assumes "valid_config fd mln md"
  shows "grower_inv [0] (root_state H fd grads hess mln md mg nb l2 mh shr)"
proof -
  define s where "s = root_state H fd grads hess mln md mg nb l2 mh shr"
  note f = root_state_fields[of H fd grads hess mln md mg nb l2 mh shr, folded s_def]
  have st: "store_ok [0] s"
  proof (rule store_okI)
    show "distinct (splittable_nodes s @ finalized_leaves s @ [0])" using f by simp
    show "j < length (nodes s)"
      if "j \<in> set (splittable_nodes s) \<or> j \<in> set (finalized_leaves s) \<or> j \<in> set [0]" for j
      using that f by simp
    show "node_ok [0] s j" if "j < length (nodes s)" for j
      using that f by (simp add: node_ok_def Let_def)
  qed
  have co: "count_ok [0] s" using f by (simp add: count_ok_def)
  have he: "heap_ok s" using f by (simp add: heap_ok_def is_heap_Nil)
  have de: "depth_ok s"
  proof (cases md)
    case None
    then show ?thesis using f by (simp add: depth_ok_def)
  next
    case (Some d)
    then have "1 \<le> d" using assms by (simp add: valid_config_def)
    then show ?thesis using f Some by (simp add: depth_ok_def)
  qed
  have "tree_of s (PLeaf 0)" using f by (auto simp: tree_of_def)
  then have tr: "tree_ok s" by (auto simp: tree_ok_def)
  show ?thesis using st co he de tr unfolding s_def grower_inv_def by simp
qed

lemma TreeGrower_init_inv:
  assumes v: "valid_config fd mln md"
  shows "\<exists>s. TreeGrower_init H fd grads hess mln md mg nb l2 mh shr = Inr s \<and>
           grower_inv [] s \<and>
           same_config (root_state H fd grads hess mln md mg nb l2 mh shr) s \<and>
           n_nodes s = 1 \<and>
           length (splittable_nodes s) + length (finalized_leaves s) = 1 \<and>
           (mln \<noteq> Some 1 \<and>
            \<not> gain (find_node_split (H (snd (shape fd)) fd nb grads hess l2 mh) [0..<fst (shape fd)]) < mg
              \<longrightarrow> finalized_leaves s = [] \<and> splittable_nodes s \<noteq> [])"
proof -
  define s2 where "s2 = root_state H fd grads hess mln md mg nb l2 mh shr"
  note f = root_state_fields[of H fd grads hess mln md mg nb l2 mh shr, folded s2_def]
  have inv2: "grower_inv [0] s2" unfolding s2_def by (rule grower_inv_root_state[OF v])
  have u: "TreeGrower_init H fd grads hess mln md mg nb l2 mh shr =
     (if mln = Some 1 then Inr (finalize_leaf s2 0) else compute_spittability s2 0)"
    unfolding s2_def by (rule TreeGrower_init_valid[OF v])
  have "\<exists>s. TreeGrower_init H fd grads hess mln md mg nb l2 mh shr = Inr s \<and>
           grower_inv [] s \<and> same_config s2 s \<and> n_nodes s = 1 \<and>
           length (splittable_nodes s) + length (finalized_leaves s) = 1 \<and>
           (mln \<noteq> Some 1 \<and>
            \<not> gain (find_node_split (H (snd (shape fd)) fd nb grads hess l2 mh) [0..<fst (shape fd)]) < mg
              \<longrightarrow> finalized_leaves s = [] \<and> splittable_nodes s \<noteq> [])"
  proof (cases "mln = Some 1")
    case True
    have "grower_inv [] (finalize_leaf s2 0)" using inv2 by (rule grower_inv_finalize_leaf)
    moreover have "TreeGrower_init H fd grads hess mln md mg nb l2 mh shr = Inr (finalize_leaf s2 0)"
      using u True by simp
    ultimately show ?thesis
      using True f(1,2,4) finalize_leaf_fields(6)[of s2 0]
      by (simp add: finalize_leaf_fields)
  next
    case False
    have dp: "\<And>d. max_depth s2 = Some d \<Longrightarrow> depth (nodes s2 ! 0) \<noteq> d"
      using v f by (auto simp: valid_config_def)
    obtain s where s: "compute_spittability s2 0 = Inr s" "grower_inv [] s" "same_config s2 s"
        "n_nodes s = n_nodes s2"
        "length (splittable_nodes s) + length (finalized_leaves s) =
             length (splittable_nodes s2) + length (finalized_leaves s2) + 1"
        "\<not> gain (find_node_split (splitter s2) (sample_indices (nodes s2 ! 0)))
                < min_gain_to_split s2 \<longrightarrow>
              finalized_leaves s = finalized_leaves s2 \<and> splittable_nodes s \<noteq> []"
      using compute_spittability_inv[OF inv2 dp] by blast
    have sp: "splitter s2 = H (snd (shape fd)) fd nb grads hess l2 mh"
      "sample_indices (nodes s2 ! 0) = [0..<fst (shape fd)]"
      by (simp_all add: s2_def root_state_def TreeNode_def)
    have "TreeGrower_init H fd grads hess mln md mg nb l2 mh shr = Inr s"
      using u False s(1) by simp
    then show ?thesis
      using s(2-6) f(1,2,4,8) sp by simp
  qed
  then show ?thesis unfolding s2_def .
qed

subsection \<open>Runs of the grower\<close>

lemma split_next_empty:
  "splittable_nodes s = [] \<Longrightarrow> split_next s = Inl (StopIteration ''No more splittable nodes'')"
  by (simp add: split_next_def)

lemma can_split_further_iff: "can_split_further s = (splittable_nodes s \<noteq> [])"
  by (cases "splittable_nodes s") (simp_all add: can_split_further_def)

lemma split_steps_inv:
  assumes "grower_inv [] s" "split_steps n s = Inr s'"
  shows "grower_inv [] s' \<and> same_config s s'"
  using assms
proof (induction n arbitrary: s)
  case 0
  then show ?case by (simp add: same_config_def)
next
  case (Suc n)
  have ne: "splittable_nodes s \<noteq> []"
  proof
    assume "splittable_nodes s = []"
    then show False using Suc.prems(2) by (simp add: split_next_empty)
  qed
  from split_next_inv[OF Suc.prems(1) ne]
  obtain s1 l r where s1: "split_next s = Inr (s1, l, r)" "grower_inv [] s1" "same_config s s1"
    by blast
  have "split_steps n s1 = Inr s'" using Suc.prems(2) s1(1) by simp
  from Suc.IH[OF s1(2) this] have "grower_inv [] s'" "same_config s1 s'" by simp_all
  then show ?case using s1(3) by (simp add: same_config_def)
qed

lemma split_steps_Suc_end:
  "split_steps (Suc n) s =
     (case split_steps n s of
        Inl e \<Rightarrow> Inl e
      | Inr s1 \<Rightarrow> (case split_next s1 of Inl e \<Rightarrow> Inl e | Inr r \<Rightarrow> Inr (fst r)))"
proof (induction n arbitrary: s)
  case 0
  then show ?case by (simp split: sum.split)
next
  case (Suc n)
  show ?case
  proof (cases "split_next s")
    case (Inl e)
    then show ?thesis by simp
  next
    case (Inr r)
    then show ?thesis using Suc.IH[of "fst r"] by simp
  qed
qed

lemma grow_steps_aux:
  assumes "grow s0 = Some res0"
  shows "grower_inv [] s0 \<longrightarrow>
       (\<exists>n s'. res0 = Inr s' \<and> split_steps n s0 = Inr s' \<and> splittable_nodes s' = [])"
proof (rule grow.raw_induct[where P = "\<lambda>s res. grower_inv [] s \<longrightarrow>
       (\<exists>n s'. res = Inr s' \<and> split_steps n s = Inr s' \<and> splittable_nodes s' = [])",
       OF _ assms])
  fix grow' :: "grower \<Rightarrow> (error + grower) option" and s res
  assume IH: "\<And>s res. grow' s = Some res \<Longrightarrow> grower_inv [] s \<longrightarrow>
       (\<exists>n s'. res = Inr s' \<and> split_steps n s = Inr s' \<and> splittable_nodes s' = [])"
    and body: "(if can_split_further s then
        (case split_next s of
           Inl e \<Rightarrow> Some (Inl e)
         | Inr r \<Rightarrow> grow' (fst r))
      else Some (Inr s)) = Some res"
  show "grower_inv [] s \<longrightarrow>
       (\<exists>n s'. res = Inr s' \<and> split_steps n s = Inr s' \<and> splittable_nodes s' = [])"
  proof
    assume inv: "grower_inv [] s"
    show "\<exists>n s'. res = Inr s' \<and> split_steps n s = Inr s' \<and> splittable_nodes s' = []"
    proof (cases "can_split_further s")
      case False
      then have "res = Inr s" "splittable_nodes s = []"
        using body by (auto simp: can_split_further_iff)
      then have "res = Inr s \<and> split_steps 0 s = Inr s \<and> splittable_nodes s = []" by simp
      then show ?thesis by blast
    next
      case True
      then have ne: "splittable_nodes s \<noteq> []" by (simp add: can_split_further_iff)
      from split_next_inv[OF inv ne]
      obtain s1 l r where s1: "split_next s = Inr (s1, l, r)" "grower_inv [] s1" by blast
      have "grow' s1 = Some res" using body True s1(1) by simp
      from IH[OF this] s1(2)
      obtain n s' where "res = Inr s'" "split_steps n s1 = Inr s'" "splittable_nodes s' = []"
        by blast
      then have "res = Inr s' \<and> split_steps (Suc n) s = Inr s' \<and> splittable_nodes s' = []"
        using s1(1) by simp
      then show ?thesis by blast
    qed
  qed
qed

lemma grow_steps:
  assumes "grow s = Some res" "grower_inv [] s"
  shows "\<exists>n s'. res = Inr s' \<and> split_steps n s = Inr s' \<and> splittable_nodes s' = []"
  using grow_steps_aux[OF assms(1)] assms(2) by blast

lemma steps_grow:
  assumes "split_steps n s = Inr s'" "splittable_nodes s' = []"
  shows "grow s = Some (Inr s')"
  using assms
proof (induction n arbitrary: s)
  case 0
  then show ?case by (subst grow.simps) (simp add: can_split_further_iff)
next
  case (Suc n)
  have ne: "splittable_nodes s \<noteq> []"
  proof
    assume "splittable_nodes s = []"
    then show False using Suc.prems(1) by (simp add: split_next_empty)
  qed
  then have c: "can_split_further s" by (simp add: can_split_further_iff)
  obtain r where r: "split_next s = Inr r" "split_steps n (fst r) = Inr s'"
    using Suc.prems(1) by (cases "split_next s") simp_all
  have "grow (fst r) = Some (Inr s')" using Suc.IH[OF r(2) Suc.prems(2)] .
  then show ?case using c r(1) by (subst grow.simps) simp
qed

subsection \<open>The concrete run, evaluated\<close>

lemma ex_splitter_fields:
  "find_node_split (ex_splitter a b c d e f g) idx =
     \<lparr>feature_idx = 0, bin_idx = length idx div 2, gain = real (length idx),
      gradient_left = real (length idx div 2), hessian_left = real (length idx div 2),
      gradient_right = real (length idx - length idx div 2),
      hessian_right = real (length idx - length idx div 2)\<rparr>"
  "split_indices (ex_splitter a b c d e f g) idx si =
     (take (length idx div 2) idx, drop (length idx div 2) idx)"
  "all_gradients (ex_splitter a b c d e f g) = d"
  "all_hessians (ex_splitter a b c d e f g) = e"
  "l2_regularization (ex_splitter a b c d e f g) = f"
  by (simp_all add: ex_splitter_def)

lemmas ex_defs = ex_state_def ex_node_def ex_features_def ex_splitter_fields

lemmas run_defs = compute_spittability_def heappush_def heappop_def siftdown_def siftup_def
  siftdown_loop.simps siftup_loop.simps node_lt_def TreeNode_lt_def finalize_leaf_def
  new_node_def TreeNode_def Let_def

lemma ex_init_start:
  "ex_init (Some 3) None = Inr (ex_start (Some 3) None)"
  "ex_init None (Some 1) = Inr (ex_start None (Some 1))"
  by (simp_all add: ex_init_def ex_start_def TreeGrower_init_def intilialize_root_def
        run_defs ex_defs upt_conv_Cons)

lemma ex_split_start:
  "split_next (ex_start (Some 3) None) = Inr (ex_mid (Some 3) None, 1, 2)"
  by (simp add: split_next_def ex_start_def ex_mid_def run_defs ex_defs)


lemma ex_split_mid:
  "split_next (ex_mid (Some 3) None) = Inr (ex_end, 3, 4)"
  by (simp add: split_next_def ex_mid_def ex_end_def run_defs ex_defs
        finalize_splittable_nodes.simps)

lemma ex_split_shallow:
  "split_next (ex_start None (Some 1)) = Inr (ex_shallow, 1, 2)"
  by (simp add: split_next_def ex_start_def ex_shallow_def run_defs ex_defs)

lemma ex_steps:
  "split_steps 2 (ex_start (Some 3) None) = Inr ex_end"
  "split_steps 1 (ex_start (Some 3) None) = Inr (ex_mid (Some 3) None)"
  "split_steps 1 (ex_start None (Some 1)) = Inr ex_shallow"
  by (simp_all add: numeral_2_eq_2 ex_split_start ex_split_mid ex_split_shallow)

lemma ex_grow:
  "grow (ex_start (Some 3) None) = Some (Inr ex_end)"
  "grow (ex_start None (Some 1)) = Some (Inr ex_shallow)"
  by (rule steps_grow[OF ex_steps(1)], simp add: ex_end_def ex_state_def,
      rule steps_grow[OF ex_steps(3)], simp add: ex_shallow_def ex_state_def)

subsection \<open>States reached from the constructor\<close>

lemma TreeGrower_init_reached:
  assumes "TreeGrower_init H fd grads hess mln md mg nb l2 mh shr = Inr s0"
  shows "grower_inv [] s0" "valid_config fd mln md"
    "same_config (root_state H fd grads hess mln md mg nb l2 mh shr) s0"
proof -
  show v: "valid_config fd mln md"
  proof (rule ccontr)
    assume "\<not> valid_config fd mln md"
    from TreeGrower_init_invalid[OF this, of H grads hess mg nb l2 mh shr] assms
    show False by auto
  qed
  from TreeGrower_init_inv[OF v, of H grads hess mg nb l2 mh shr] assms
  show "grower_inv [] s0" "same_config (root_state H fd grads hess mln md mg nb l2 mh shr) s0"
    by auto
qed

lemma reached_inv:
  assumes "TreeGrower_init H fd grads hess mln md mg nb l2 mh shr = Inr s0"
    and "split_steps n s0 = Inr s \<or> grow s0 = Some (Inr s)"
  shows "grower_inv [] s" "same_config (root_state H fd grads hess mln md mg nb l2 mh shr) s"
proof -
  note i = TreeGrower_init_reached[OF assms(1)]
  obtain m where m: "split_steps m s0 = Inr s"
    using assms(2) grow_steps[OF _ i(1), of "Inr s"] by auto
  from split_steps_inv[OF i(1) m] show "grower_inv [] s" by simp
  from split_steps_inv[OF i(1) m] i(3)
  show "same_config (root_state H fd grads hess mln md mg nb l2 mh shr) s"
    by (simp add: same_config_def)
qed

lemma grower_inv_leaf:
  assumes "grower_inv [] s" "i \<in> set (finalized_leaves s)"
  shows "i < length (nodes s)" "i \<notin> set (splittable_nodes s)"
    "weight (nodes s ! i) = Some (leaf_value s (nodes s ! i))"
    "left_child (nodes s ! i) = None" "right_child (nodes s ! i) = None"
proof -
  have st: "store_ok [] s" using assms(1) by (simp add: grower_inv_def)
  show il: "i < length (nodes s)" using store_ok_bound[OF st, of i] assms(2) by simp
  show nq: "i \<notin> set (splittable_nodes s)" using store_ok_distinct[OF st] assms(2) by auto
  show "weight (nodes s ! i) = Some (leaf_value s (nodes s ! i))"
    "left_child (nodes s ! i) = None" "right_child (nodes s ! i) = None"
    using store_ok_node[OF st il] assms(2) nq by (simp_all add: node_ok_def Let_def)
qed

lemma grower_inv_not_leaf:
  assumes "grower_inv [] s" "i < length (nodes s)" "i \<notin> set (finalized_leaves s)"
  shows "split_info (nodes s ! i) \<noteq> None" "weight (nodes s ! i) = None"
    "i \<notin> set (splittable_nodes s) \<Longrightarrow> left_child (nodes s ! i) \<noteq> None"
    "i \<notin> set (splittable_nodes s) \<Longrightarrow> right_child (nodes s ! i) \<noteq> None"
    "i \<in> set (splittable_nodes s) \<Longrightarrow> left_child (nodes s ! i) = None"
    "i \<in> set (splittable_nodes s) \<Longrightarrow> right_child (nodes s ! i) = None"
proof -
  have st: "store_ok [] s" using assms(1) by (simp add: grower_inv_def)
  note n = store_ok_node[OF st assms(2)]
  show "split_info (nodes s ! i) \<noteq> None" "weight (nodes s ! i) = None"
    using n assms(3) by (auto simp: node_ok_def Let_def split: if_splits)
  show "i \<notin> set (splittable_nodes s) \<Longrightarrow> left_child (nodes s ! i) \<noteq> None"
    "i \<notin> set (splittable_nodes s) \<Longrightarrow> right_child (nodes s ! i) \<noteq> None"
    "i \<in> set (splittable_nodes s) \<Longrightarrow> left_child (nodes s ! i) = None"
    "i \<in> set (splittable_nodes s) \<Longrightarrow> right_child (nodes s ! i) = None"
    using n assms(3) by (auto simp: node_ok_def Let_def split: if_splits)
qed

section \<open>The claims\<close>

subsection \<open>Comparison of nodes\<close>

text \<open>
  Claim C7. Comparing two nodes with \<^verbatim>\<open><\<close> raises \<^verbatim>\<open>ValueError\<close> whenever the
  \<^verbatim>\<open>split_info\<close> of either node is unset, and otherwise returns the boolean saying
  that the gain of the left node is strictly greater than the gain of the right node.
\<close>

theorem TreeNode_lt_fails_fast:
  "(split_info a = None \<or> split_info b = None \<longrightarrow>
      TreeNode_lt a b = Inl (ValueError ''Cannot compare nodes with split_info'')) \<and>
   (\<forall>x y. split_info a = Some x \<and> split_info b = Some y \<longrightarrow>
      TreeNode_lt a b = Inr (gain x > gain y))"
  by (simp add: TreeNode_lt_def split: option.split)

theorem TreeNode_lt_fails_fast_witness:
  "TreeNode_lt (TreeNode 1 [0] 1 1) (TreeNode 1 [1] 1 1\<lparr>split_info :=
      Some \<lparr>feature_idx = 0, bin_idx = 0, gain = 1, gradient_left = 0, hessian_left = 0,
            gradient_right = 0, hessian_right = 0\<rparr>\<rparr>)
     = Inl (ValueError ''Cannot compare nodes with split_info'') \<and>
   TreeNode_lt
     (TreeNode 1 [0] 1 1\<lparr>split_info :=
        Some \<lparr>feature_idx = 0, bin_idx = 0, gain = 3, gradient_left = 0, hessian_left = 0,
              gradient_right = 0, hessian_right = 0\<rparr>\<rparr>)
     (TreeNode 1 [1] 1 1\<lparr>split_info :=
        Some \<lparr>feature_idx = 0, bin_idx = 0, gain = 1, gradient_left = 0, hessian_left = 0,
              gradient_right = 0, hessian_right = 0\<rparr>\<rparr>)
     = Inr True"
  using
    TreeNode_lt_fails_fast [of "TreeNode 1 [0] 1 1"
      "TreeNode 1 [1] 1 1\<lparr>split_info :=
        Some \<lparr>feature_idx = 0, bin_idx = 0, gain = 1, gradient_left = 0, hessian_left = 0,
              gradient_right = 0, hessian_right = 0\<rparr>\<rparr>"]
    TreeNode_lt_fails_fast [of
      "TreeNode 1 [0] 1 1\<lparr>split_info :=
        Some \<lparr>feature_idx = 0, bin_idx = 0, gain = 3, gradient_left = 0, hessian_left = 0,
              gradient_right = 0, hessian_right = 0\<rparr>\<rparr>"
      "TreeNode 1 [1] 1 1\<lparr>split_info :=
        Some \<lparr>feature_idx = 0, bin_idx = 0, gain = 1, gradient_left = 0, hessian_left = 0,
              gradient_right = 0, hessian_right = 0\<rparr>\<rparr>"]
  by (simp add: TreeNode_def)

subsection \<open>Validation in the constructor\<close>

text \<open>
  Claim C6. The constructor rejects an invalid configuration before it creates a node or
  evaluates a split: a feature matrix whose element type is not \<^verbatim>\<open>uint8\<close> raises
  \<^verbatim>\<open>NotImplementedError\<close>; otherwise \<^verbatim>\<open>max_leaf_nodes\<close> below 1 raises
  \<^verbatim>\<open>ValueError\<close>; otherwise \<^verbatim>\<open>max_depth\<close> below 1 raises \<^verbatim>\<open>ValueError\<close>. The
  checks run in this order, so the first one that fails decides the exception. The result
  is the exception alone, whatever the split evaluator \<open>H\<close> is: no state is produced.
\<close>

theorem TreeGrower_init_fails_fast:
  "(dtype fd \<noteq> uint8 \<longrightarrow>
      TreeGrower_init H fd grads hess mln md mg nb l2 mh shr =
        Inl (NotImplementedError ''Explicit feature binning required for now'')) \<and>
   (dtype fd = uint8 \<and> mln = Some k \<and> k < 1 \<longrightarrow>
      TreeGrower_init H fd grads hess mln md mg nb l2 mh shr =
        Inl (ValueError (''max_leaf_nodes='' @ show_int k @ '' should not be smaller than 1''))) \<and>
   (dtype fd = uint8 \<and> (mln = None \<or> 1 \<le> the mln) \<and> md = Some d \<and> d < 1 \<longrightarrow>
      TreeGrower_init H fd grads hess mln md mg nb l2 mh shr =
        Inl (ValueError (''max_depth='' @ show_int d @ '' should not be smaller than 1'')))"
  by (cases mln) (simp_all add: TreeGrower_init_def)

theorem TreeGrower_init_fails_fast_witness:
  "TreeGrower_init ex_splitter \<lparr>dtype = float64, shape = (4, 1), f_contiguous = True\<rparr>
      [1, 1, 1, 1] [1, 1, 1, 1] (Some 0) (Some 0) 2 256 0 (1 / 1000) 1 =
     Inl (NotImplementedError ''Explicit feature binning required for now'') \<and>
   TreeGrower_init ex_splitter ex_features [1, 1, 1, 1] [1, 1, 1, 1] (Some 0) (Some 0)
      2 256 0 (1 / 1000) 1 =
     Inl (ValueError ''max_leaf_nodes=0 should not be smaller than 1'') \<and>
   TreeGrower_init ex_splitter ex_features [1, 1, 1, 1] [1, 1, 1, 1] None (Some (- 3))
      2 256 0 (1 / 1000) 1 =
     Inl (ValueError ''max_depth=-3 should not be smaller than 1'')"
  using
    TreeGrower_init_fails_fast [where fd = "\<lparr>dtype = float64, shape = (4, 1), f_contiguous = True\<rparr>"
      and H = ex_splitter and grads = "[1, 1, 1, 1]" and hess = "[1, 1, 1, 1]"
      and mln = "Some 0" and md = "Some 0" and mg = 2 and nb = 256 and ?l2.0 = 0
      and mh = "1 / 1000" and shr = 1 and k = 0 and d = 0]
    TreeGrower_init_fails_fast [where fd = ex_features
      and H = ex_splitter and grads = "[1, 1, 1, 1]" and hess = "[1, 1, 1, 1]"
      and mln = "Some 0" and md = "Some 0" and mg = 2 and nb = 256 and ?l2.0 = 0
      and mh = "1 / 1000" and shr = 1 and k = 0 and d = 0]
    TreeGrower_init_fails_fast [where fd = ex_features
      and H = ex_splitter and grads = "[1, 1, 1, 1]" and hess = "[1, 1, 1, 1]"
      and mln = None and md = "Some (- 3)" and mg = 2 and nb = 256 and ?l2.0 = 0
      and mh = "1 / 1000" and shr = 1 and k = 0 and d = "- 3"]
  by (simp add: ex_features_def show_int_def show_nat.simps)

subsection \<open>A leaf budget of one\<close>

text \<open>
  Claim C3. With \<^verbatim>\<open>max_leaf_nodes = 1\<close> (and an otherwise valid configuration) the
  constructor finalizes the root at once: the store holds the root alone, with its weight
  set and neither \<^verbatim>\<open>split_info\<close> nor children; the evaluator has not been called;
  the queue is empty; the root is the one finalized leaf; and \<^verbatim>\<open>grow\<close> returns the
  state unchanged.
\<close>

theorem max_leaf_nodes_one_root_only:
  assumes "dtype fd = uint8" and "md = None \<or> 1 \<le> the md"
  shows "\<exists>s. TreeGrower_init H fd grads hess (Some 1) md mg nb l2 mh shr = Inr s \<and>
           evaluator_calls s = [] \<and> splittable_nodes s = [] \<and>
           finalized_leaves s = [root_node s] \<and> root_node s = 0 \<and>
           length (nodes s) = 1 \<and> n_nodes s = 1 \<and>
           split_info (nodes s ! root_node s) = None \<and>
           left_child (nodes s ! root_node s) = None \<and>
           right_child (nodes s ! root_node s) = None \<and>
           weight (nodes s ! root_node s) \<noteq> None \<and>
           grow s = Some (Inr s)"
proof -
  have v: "valid_config fd (Some 1) md"
    using assms by (cases md) (simp_all add: valid_config_def)
  define s2 where "s2 = root_state H fd grads hess (Some 1) md mg nb l2 mh shr"
  note f = root_state_fields[of H fd grads hess "Some 1" md mg nb l2 mh shr, folded s2_def]
  define s where "s = finalize_leaf s2 0"
  have i: "TreeGrower_init H fd grads hess (Some 1) md mg nb l2 mh shr = Inr s"
    using TreeGrower_init_valid[OF v, of H grads hess mg nb l2 mh shr] by (simp add: s_def s2_def)
  have cfg: "root_node s = 0"
    using finalize_leaf_fields(6)[of s2 0] f(5) by (simp add: s_def same_config_def)
  have q: "splittable_nodes s = []" using f by (simp add: s_def finalize_leaf_fields)
  have n0: "nodes s ! 0 = (nodes s2 ! 0)\<lparr>weight := Some (leaf_value s2 (nodes s2 ! 0))\<rparr>"
    using f(3) by (simp add: s_def finalize_leaf_fields)
  have g: "grow s = Some (Inr s)"
    using q by (subst grow.simps) (simp add: can_split_further_iff)
  show ?thesis
    using i cfg q g n0 f by (simp add: s_def finalize_leaf_fields)
qed


theorem max_leaf_nodes_one_root_only_witness:
  "\<exists>s. ex_init (Some 1) None = Inr s \<and>
           evaluator_calls s = [] \<and> splittable_nodes s = [] \<and>
           finalized_leaves s = [root_node s] \<and> root_node s = 0 \<and>
           length (nodes s) = 1 \<and> n_nodes s = 1 \<and>
           split_info (nodes s ! root_node s) = None \<and>
           left_child (nodes s ! root_node s) = None \<and>
           right_child (nodes s ! root_node s) = None \<and>
           weight (nodes s ! root_node s) \<noteq> None \<and>
           grow s = Some (Inr s)"
  unfolding ex_init_def
  by (rule max_leaf_nodes_one_root_only) (simp_all add: ex_features_def)

subsection \<open>The finished tree\<close>

text \<open>
  Claim C10. When \<^verbatim>\<open>grow\<close> returns on a freshly constructed grower, it returns
  normally with an empty queue, and every node of the store is either a finalized leaf
  (in the list of leaves, weight set, no child) or an internal node (not in the list,
  evaluated, weight unset, both children set); no node has exactly one child. The store
  holds \<^verbatim>\<open>n_nodes\<close> nodes, no leaf is listed twice, and \<^verbatim>\<open>n_nodes\<close> is twice the
  number of finalized leaves minus one.
\<close>

theorem grown_tree_is_full:
  assumes "TreeGrower_init H fd grads hess mln md mg nb l2 mh shr = Inr s0"
    and "grow s0 = Some res"
  shows "\<exists>s. res = Inr s \<and> splittable_nodes s = [] \<and> length (nodes s) = n_nodes s \<and>
           distinct (finalized_leaves s) \<and>
           n_nodes s + 1 = 2 * length (finalized_leaves s) \<and>
           (\<forall>i\<in>{0..<length (nodes s)}.
              (i \<in> set (finalized_leaves s) \<and> weight (nodes s ! i) \<noteq> None \<and>
               left_child (nodes s ! i) = None \<and> right_child (nodes s ! i) = None) \<or>
              (i \<notin> set (finalized_leaves s) \<and> weight (nodes s ! i) = None \<and>
               split_info (nodes s ! i) \<noteq> None \<and>
               left_child (nodes s ! i) \<noteq> None \<and> right_child (nodes s ! i) \<noteq> None))"
proof -
  note i = TreeGrower_init_reached[OF assms(1)]
  from grow_steps[OF assms(2) i(1)]
  obtain n s where s: "res = Inr s" "split_steps n s0 = Inr s" "splittable_nodes s = []"
    by blast
  have inv: "grower_inv [] s" using split_steps_inv[OF i(1) s(2)] by simp
  have co: "length (nodes s) = n_nodes s" "n_nodes s + 1 = 2 * length (finalized_leaves s)"
    using inv s(3) by (simp_all add: grower_inv_def count_ok_def)
  have di: "distinct (finalized_leaves s)"
    using inv store_ok_distinct[of "[]" s] by (simp add: grower_inv_def)
  have nd: "(i \<in> set (finalized_leaves s) \<and> weight (nodes s ! i) \<noteq> None \<and>
               left_child (nodes s ! i) = None \<and> right_child (nodes s ! i) = None) \<or>
              (i \<notin> set (finalized_leaves s) \<and> weight (nodes s ! i) = None \<and>
               split_info (nodes s ! i) \<noteq> None \<and>
               left_child (nodes s ! i) \<noteq> None \<and> right_child (nodes s ! i) \<noteq> None)"
    if "i < length (nodes s)" for i
  proof (cases "i \<in> set (finalized_leaves s)")
    case True
    then show ?thesis using grower_inv_leaf[OF inv True] by simp
  next
    case False
    then show ?thesis using grower_inv_not_leaf[OF inv that False] s(3) by simp
  qed
  show ?thesis using s(1,3) co di nd by simp
qed

theorem grown_tree_is_full_witness:
  "splittable_nodes ex_end = [] \<and> length (nodes ex_end) = n_nodes ex_end \<and>
   n_nodes ex_end = 5 \<and> length (finalized_leaves ex_end) = 3 \<and>
   2 \<in> set (finalized_leaves ex_end) \<and> weight (nodes ex_end ! 2) \<noteq> None \<and>
   left_child (nodes ex_end ! 2) = None \<and>
   1 \<notin> set (finalized_leaves ex_end) \<and> weight (nodes ex_end ! 1) = None \<and>
   left_child (nodes ex_end ! 1) \<noteq> None \<and> right_child (nodes ex_end ! 1) \<noteq> None"
  using grown_tree_is_full [OF ex_init_start(1) [unfolded ex_init_def] ex_grow(1)]
  by (simp add: ex_end_def ex_state_def ex_node_def)

subsection \<open>Leaf weights\<close>

text \<open>
  Claim C4. Finalizing a node sets its weight to
  \<^verbatim>\<open>shrinkage * sum_gradients / (sum_hessians + l2_regularization)\<close>, from the node's
  own sums, the grower's shrinkage and the regularisation held by its splitter. After
  construction, after any number of calls of \<^verbatim>\<open>split_next\<close> and when \<^verbatim>\<open>grow\<close>
  returns, every node in the list of finalized leaves carries exactly this weight.
\<close>

theorem finalized_leaf_weight:
  "(i < length (nodes t) \<longrightarrow>
      weight (nodes (finalize_leaf t i) ! i) =
        Some (shrinkage t * sum_gradients (nodes t ! i) /
              (sum_hessians (nodes t ! i) + l2_regularization (splitter t)))) \<and>
   (TreeGrower_init H fd grads hess mln md mg nb l2 mh shr = Inr s0 \<and>
    (split_steps n s0 = Inr s \<or> grow s0 = Some (Inr s)) \<longrightarrow>
      (\<forall>j\<in>set (finalized_leaves s).
         weight (nodes s ! j) =
           Some (shr * sum_gradients (nodes s ! j) /
                 (sum_hessians (nodes s ! j) +
                  l2_regularization (H (snd (shape fd)) fd nb grads hess l2 mh)))))"
proof (intro conjI impI ballI)
  assume "i < length (nodes t)"
  then show "weight (nodes (finalize_leaf t i) ! i) =
        Some (shrinkage t * sum_gradients (nodes t ! i) /
              (sum_hessians (nodes t ! i) + l2_regularization (splitter t)))"
    by (simp add: finalize_leaf_fields leaf_value_def)
next
  fix j
  assume a: "TreeGrower_init H fd grads hess mln md mg nb l2 mh shr = Inr s0 \<and>
    (split_steps n s0 = Inr s \<or> grow s0 = Some (Inr s))"
    and j: "j \<in> set (finalized_leaves s)"
  have inv: "grower_inv [] s"
    and cfg: "same_config (root_state H fd grads hess mln md mg nb l2 mh shr) s"
    using reached_inv[of H fd grads hess mln md mg nb l2 mh shr s0 n s] a by simp_all
  have "shrinkage s = shr" "splitter s = H (snd (shape fd)) fd nb grads hess l2 mh"
    using cfg by (simp_all add: same_config_def root_state_def)
  then show "weight (nodes s ! j) =
           Some (shr * sum_gradients (nodes s ! j) /
                 (sum_hessians (nodes s ! j) +
                  l2_regularization (H (snd (shape fd)) fd nb grads hess l2 mh)))"
    using grower_inv_leaf(3)[OF inv j] by (simp add: leaf_value_def)
qed

theorem finalized_leaf_weight_witness:
  "weight (nodes (finalize_leaf (ex_mid (Some 3) None) 2) ! 2) = Some 1 \<and>
   finalized_leaves ex_end = [3, 4, 2] \<and>
   weight (nodes ex_end ! 3) = Some (1 * 1 / (1 + 0)) \<and>
   weight (nodes ex_end ! 2) = Some (1 * 2 / (2 + 0))"
  using finalized_leaf_weight [of 2 "ex_mid (Some 3) None" ex_splitter ex_features
      "[1, 1, 1, 1]" "[1, 1, 1, 1]" "Some 3" None 2 256 0 "1 / 1000" 1
      "ex_start (Some 3) None" 2 ex_end]
    ex_init_start(1) [unfolded ex_init_def] ex_steps(1)
  by (simp add: ex_end_def ex_mid_def ex_state_def ex_node_def ex_splitter_fields)

subsection \<open>The depth limit\<close>

text \<open>
  Claim C2. With \<^verbatim>\<open>max_depth = d\<close>, after construction, after every call of
  \<^verbatim>\<open>split_next\<close> and when \<^verbatim>\<open>grow\<close> returns, every node of the store has depth
  at most \<open>d\<close>, and every node of depth \<open>d\<close> is a finalized leaf: it is in the list of
  leaves and not in the queue, its weight is set, it has no children, and it has never
  been evaluated (so it has never been queued, since only evaluated nodes are).
\<close>

theorem depth_limit_respected:
  assumes "TreeGrower_init H fd grads hess mln (Some d) mg nb l2 mh shr = Inr s0"
    and "split_steps n s0 = Inr s \<or> grow s0 = Some (Inr s)"
  shows "\<forall>i\<in>{0..<length (nodes s)}.
           depth (nodes s ! i) \<le> d \<and>
           (depth (nodes s ! i) = d \<longrightarrow>
              i \<in> set (finalized_leaves s) \<and> i \<notin> set (splittable_nodes s) \<and>
              weight (nodes s ! i) \<noteq> None \<and> split_info (nodes s ! i) = None \<and>
              left_child (nodes s ! i) = None \<and> right_child (nodes s ! i) = None)"
proof
  fix i assume "i \<in> {0..<length (nodes s)}"
  then have il: "i < length (nodes s)" by simp
  have inv: "grower_inv [] s"
    and cfg: "same_config (root_state H fd grads hess mln (Some d) mg nb l2 mh shr) s"
    using reached_inv[OF assms] by simp_all
  have md: "max_depth s = Some d" using cfg by (simp add: same_config_def root_state_def)
  have de: "depth (nodes s ! i) \<le> d"
    "depth (nodes s ! i) = d \<Longrightarrow> split_info (nodes s ! i) = None"
    using inv md il by (simp_all add: grower_inv_def depth_ok_def)
  have "i \<in> set (finalized_leaves s)" if "depth (nodes s ! i) = d"
  proof (rule ccontr)
    assume "i \<notin> set (finalized_leaves s)"
    from grower_inv_not_leaf(1)[OF inv il this] de(2)[OF that] show False by simp
  qed
  then show "depth (nodes s ! i) \<le> d \<and>
           (depth (nodes s ! i) = d \<longrightarrow>
              i \<in> set (finalized_leaves s) \<and> i \<notin> set (splittable_nodes s) \<and>
              weight (nodes s ! i) \<noteq> None \<and> split_info (nodes s ! i) = None \<and>
              left_child (nodes s ! i) = None \<and> right_child (nodes s ! i) = None)"
    using de grower_inv_leaf[OF inv, of i] by auto
qed

theorem depth_limit_respected_witness:
  "length (nodes ex_shallow) = 3 \<and> depth (nodes ex_shallow ! 0) \<le> 1 \<and>
   depth (nodes ex_shallow ! 1) = 1 \<and> 1 \<in> set (finalized_leaves ex_shallow) \<and>
   weight (nodes ex_shallow ! 1) \<noteq> None \<and> split_info (nodes ex_shallow ! 1) = None \<and>
   depth (nodes ex_shallow ! 2) = 1 \<and> 2 \<in> set (finalized_leaves ex_shallow) \<and>
   left_child (nodes ex_shallow ! 2) = None \<and> right_child (nodes ex_shallow ! 2) = None"
  using depth_limit_respected [OF ex_init_start(2) [unfolded ex_init_def] disjI2 [OF ex_grow(2)]]
  by (simp add: ex_shallow_def ex_state_def ex_node_def)

subsection \<open>The queue gives the highest gain first\<close>

text \<open>
  Claim C5. In every state reached from the constructor by calls of \<^verbatim>\<open>split_next\<close>
  whose queue is not empty, every queued node is evaluated, and \<^verbatim>\<open>split_next\<close>
  succeeds and splits a queued node whose gain is greatest among the queued nodes: that
  node leaves the queue and the two nodes returned are its children.
\<close>

theorem split_next_takes_max_gain:
  assumes "TreeGrower_init H fd grads hess mln md mg nb l2 mh shr = Inr s0"
    and "split_steps n s0 = Inr s"
    and "splittable_nodes s \<noteq> []"
  shows "\<exists>s' l r node.
           split_next s = Inr (s', l, r) \<and> node \<in> set (splittable_nodes s) \<and>
           (\<forall>j\<in>set (splittable_nodes s).
              split_info (nodes s ! j) \<noteq> None \<and>
              gain_of (nodes s) j \<le> gain_of (nodes s) node) \<and>
           node \<notin> set (splittable_nodes s') \<and>
           left_child (nodes s' ! node) = Some l \<and> right_child (nodes s' ! node) = Some r"
proof -
  have inv: "grower_inv [] s" using reached_inv(1)[OF assms(1) disjI1[OF assms(2)]] .
  have st: "store_ok [] s" using inv by (simp add: grower_inv_def)
  from split_next_inv[OF inv assms(3)]
  obtain s' l r node where r: "split_next s = Inr (s', l, r)" "grower_inv [] s'"
    "n_nodes s' = n_nodes s + 2" "node \<in> set (splittable_nodes s)"
    "\<forall>j\<in>set (splittable_nodes s). gain_of (nodes s) j \<le> gain_of (nodes s) node"
    "left_child (nodes s' ! node) = Some l" "right_child (nodes s' ! node) = Some r"
    by blast
  have "node < length (nodes s)" using store_ok_bound[OF st, of node] r(4) by simp
  moreover have "length (nodes s) = n_nodes s" "length (nodes s') = n_nodes s'"
    using inv r(2) by (simp_all add: grower_inv_def count_ok_def)
  ultimately have nl: "node < length (nodes s')" using r(3) by simp
  have nq: "node \<notin> set (splittable_nodes s')"
  proof
    assume q: "node \<in> set (splittable_nodes s')"
    have "store_ok [] s'" using r(2) by (simp add: grower_inv_def)
    from store_ok_node[OF this nl] q r(6) show False by (simp add: node_ok_def Let_def)
  qed
  have ev: "\<forall>j\<in>set (splittable_nodes s). split_info (nodes s ! j) \<noteq> None"
    using queue_evaluated[OF st] by blast
  show ?thesis using r(1,4,5,6,7) nq ev by blast
qed

theorem split_next_takes_max_gain_witness:
  "split_next (ex_mid (Some 3) None) = Inr (ex_end, 3, 4) \<and>
   splittable_nodes (ex_mid (Some 3) None) = [1, 2] \<and>
   gain_of (nodes (ex_mid (Some 3) None)) 2 \<le> gain_of (nodes (ex_mid (Some 3) None)) 1 \<and>
   1 \<notin> set (splittable_nodes ex_end) \<and>
   left_child (nodes ex_end ! 1) = Some 3 \<and> right_child (nodes ex_end ! 1) = Some 4"
  using split_next_takes_max_gain [OF ex_init_start(1) [unfolded ex_init_def] ex_steps(2)]
    ex_split_mid
  by (simp add: ex_end_def ex_mid_def ex_state_def ex_node_def gain_of_def)

end
